theory Spec2Isabelle
  imports Main "HOL-Library.Sublist"
begin

section \<open>Values and faults\<close>

text \<open>
  What \<^verbatim>\<open>simplejson.loads\<close> returns: the Python image of a JSON text.  An
  object is kept as its list of members, looked up by key.  Numbers with a
  fractional part are left out of the model.
\<close>

datatype pyval =
    PNone
  | PBool bool
  | PInt int
  | PStr string
  | PList "pyval list"
  | PDict "(string \<times> pyval) list"

text \<open>
  Every exception that the modelled part of \<^verbatim>\<open>ace.py\<close> can raise, or let
  propagate, is a value of this type.  \<open>Fatal\<close> is the process exit of
  \<^verbatim>\<open>grass.fatal\<close>, \<open>PyException\<close> is a plain \<^verbatim>\<open>raise Exception(msg)\<close>,
  \<open>External\<close> is a fault raised inside a collaborator (the HTTP transport,
  the process spawner, the decoder of the captured streams).
\<close>

datatype fault =
    ValueError
  | IndexError
  | KeyError pyval
  | TypeError
  | JSONDecodeError
  | PyException string
  | Fatal string
  | External string

text \<open>Truth value of an object, as \<^verbatim>\<open>if x:\<close> tests it.\<close>

fun truthy :: "pyval \<Rightarrow> bool" where
  "truthy PNone = False"
| "truthy (PBool b) = b"
| "truthy (PInt i) = (i \<noteq> 0)"
| "truthy (PStr s) = (s \<noteq> [])"
| "truthy (PList xs) = (xs \<noteq> [])"
| "truthy (PDict kvs) = (kvs \<noteq> [])"

text \<open>
  \<^verbatim>\<open>seq[i]\<close> on a sequence: positions run from 0, and from -1 backwards
  from the end; anything else raises IndexError.
\<close>

definition seq_index :: "'a list \<Rightarrow> int \<Rightarrow> fault + 'a" where
  "seq_index xs i =
     (if 0 \<le> i \<and> i < int (length xs) then Inr (xs ! nat i)
      else if i < 0 \<and> - int (length xs) \<le> i then Inr (xs ! nat (int (length xs) + i))
      else Inl IndexError)"

text \<open>
  The subscription \<^verbatim>\<open>obj[key]\<close>.  The keys of a parsed object are strings, so
  any other hashable key is missing from it; a list or a dict as key is
  unhashable.  \<^verbatim>\<open>bool\<close> is a subclass of \<^verbatim>\<open>int\<close> and indexes a sequence.
\<close>

fun getitem :: "pyval \<Rightarrow> pyval \<Rightarrow> fault + pyval" where
  "getitem (PDict kvs) (PStr k) =
     (case map_of kvs k of None \<Rightarrow> Inl (KeyError (PStr k)) | Some v \<Rightarrow> Inr v)"
| "getitem (PDict kvs) (PList k) = Inl TypeError"
| "getitem (PDict kvs) (PDict k) = Inl TypeError"
| "getitem (PDict kvs) key = Inl (KeyError key)"
| "getitem (PList xs) (PInt i) = seq_index xs i"
| "getitem (PList xs) (PBool b) = seq_index xs (if b then 1 else 0)"
| "getitem (PList xs) key = Inl TypeError"
| "getitem (PStr s) (PInt i) = map_sum id (\<lambda>c. PStr [c]) (seq_index s i)"
| "getitem (PStr s) (PBool b) = map_sum id (\<lambda>c. PStr [c]) (seq_index s (if b then 1 else 0))"
| "getitem (PStr s) key = Inl TypeError"
| "getitem obj key = Inl TypeError"

text \<open>
  The membership test \<^verbatim>\<open>k in obj\<close> for a string \<open>k\<close>: a key of a dict, an
  element of a list, a substring of a string; any other object is not iterable.
\<close>

fun contains :: "string \<Rightarrow> pyval \<Rightarrow> fault + bool" where
  "contains k (PDict kvs) = Inr (k \<in> fst ` set kvs)"
| "contains k (PList xs) = Inr (PStr k \<in> set xs)"
| "contains k (PStr s) = Inr (sublist k s)"
| "contains k obj = Inl TypeError"

text \<open>
  The objects a \<^verbatim>\<open>for\<close> loop draws from \<open>obj\<close>: the elements of a list, the keys
  of a dict, the characters of a string.
\<close>

fun iterate :: "pyval \<Rightarrow> fault + pyval list" where
  "iterate (PList xs) = Inr xs"
| "iterate (PDict kvs) = Inr (map (\<lambda>kv. PStr (fst kv)) kvs)"
| "iterate (PStr s) = Inr (map (\<lambda>c. PStr [c]) s)"
| "iterate obj = Inl TypeError"

section \<open>Tokenizer: \<^verbatim>\<open>split_grass_command\<close>\<close>

definition dquote :: char where
  "dquote = CHR 0x22"

definition squote :: char where
  "squote = CHR 0x27"

text \<open>The character class \<^verbatim>\<open>["']\<close> of both matchers.\<close>

definition is_quote :: "char \<Rightarrow> bool" where
  "is_quote c \<longleftrightarrow> c = dquote \<or> c = squote"

text \<open>
  Both regular expressions end in the same lookahead
  \<^verbatim>\<open>(?=(?:[^"']*["'][^"']*["'])*[^"']*$)\<close>.
  The classes \<^verbatim>\<open>[^"']\<close> and \<^verbatim>\<open>["']\<close> are disjoint, so the run is
  deterministic: \<open>dropWhile\<close> is the greedy \<^verbatim>\<open>[^"']*\<close>; at the end of the
  text the anchor matches; at a quote the group must be entered, and it needs a
  second quote to close.  (The class \<^verbatim>\<open>[^"']\<close> also eats a final newline, so
  the special treatment of \<^verbatim>\<open>$\<close> before a final newline adds no match.)
\<close>

function lookahead :: "string \<Rightarrow> bool" where
  "lookahead s =
     (case dropWhile (\<lambda>c. \<not> is_quote c) s of
        [] \<Rightarrow> True
      | q1 # r \<Rightarrow>
          (case dropWhile (\<lambda>c. \<not> is_quote c) r of
             [] \<Rightarrow> False
           | q2 # r' \<Rightarrow> lookahead r'))"
  by pat_completeness auto
termination
proof (relation "measure length")
  show "wf (measure length)" by simp
next
  fix s :: string and q1 r q2 r'
  assume a: "dropWhile (\<lambda>c. \<not> is_quote c) s = q1 # r"
     and b: "dropWhile (\<lambda>c. \<not> is_quote c) r = q2 # r'"
  have "length (q1 # r) \<le> length s"
    using length_dropWhile_le [of "\<lambda>c. \<not> is_quote c" s] a by simp
  moreover have "length (q2 # r') \<le> length r"
    using length_dropWhile_le [of "\<lambda>c. \<not> is_quote c" r] b by simp
  ultimately show "(r', s) \<in> measure length" by simp
qed

declare lookahead.simps [simp del]

text \<open>
  The same pattern read as a set of texts: any number of groups, each with two
  quote characters and no others, and then a stretch without quote characters
  up to the end.
\<close>

inductive lookahead_match :: "string \<Rightarrow> bool" where
  tail: "\<forall>c\<in>set t. \<not> is_quote c \<Longrightarrow> lookahead_match t"
| group: "\<forall>c\<in>set a. \<not> is_quote c \<Longrightarrow> is_quote q1 \<Longrightarrow>
          \<forall>c\<in>set b. \<not> is_quote c \<Longrightarrow> is_quote q2 \<Longrightarrow>
          lookahead_match rest \<Longrightarrow> lookahead_match (a @ q1 # b @ q2 # rest)"

text \<open>
  \<^verbatim>\<open>MATCHER.split(text)\<close> for a matcher that is one literal character \<open>d\<close>
  followed by the lookahead: the text is scanned from the left, \<open>cur\<close> is the
  piece collected since the last match; a match closes the piece.  A text with
  no match comes back as the one piece it is.
\<close>

fun re_split :: "char \<Rightarrow> string \<Rightarrow> string \<Rightarrow> string list" where
  "re_split d cur [] = [cur]"
| "re_split d cur (c # cs) =
     (if c = d \<and> lookahead cs then cur # re_split d [] cs
      else re_split d (cur @ [c]) cs)"

definition SPACE_MATCHER_split :: "string \<Rightarrow> string list" where
  "SPACE_MATCHER_split s = re_split (CHR '' '') [] s"

definition EQUALS_MATCHER_split :: "string \<Rightarrow> string list" where
  "EQUALS_MATCHER_split s = re_split (CHR ''='') [] s"

text \<open>\<^verbatim>\<open>s.strip(c)\<close> for a one-character argument: every leading and every trailing \<open>c\<close> goes.\<close>

definition strip :: "char \<Rightarrow> string \<Rightarrow> string" where
  "strip c s = rev (dropWhile (\<lambda>x. x = c) (rev (dropWhile (\<lambda>x. x = c) s)))"

text \<open>
  The test that guards the loop body: the token holds \<^verbatim>\<open>=\<close> and holds a single
  or a double quote.
\<close>

definition has_equals_and_quote :: "string \<Rightarrow> bool" where
  "has_equals_and_quote token \<longleftrightarrow>
     CHR ''='' \<in> set token \<and> (squote \<in> set token \<or> dquote \<in> set token)"

text \<open>
  The body of the \<^verbatim>\<open>for i, token in enumerate(tokens)\<close> loop, returning the
  new value of \<^verbatim>\<open>tokens[i]\<close>.  The tuple assignment \<^verbatim>\<open>par, val = ...\<close> raises
  ValueError unless the split has exactly two pieces; \<^verbatim>\<open>val[-1]\<close> raises
  IndexError on the empty string; \<^verbatim>\<open>val.startswith(val[-1])\<close> compares the
  first character with the last.
\<close>

definition fix_token :: "string \<Rightarrow> fault + string" where
  "fix_token token =
     (if has_equals_and_quote token then
        (case EQUALS_MATCHER_split token of
           [par, val] \<Rightarrow>
             (if val = [] then Inl IndexError
              else if hd val = last val
                then Inr (par @ ''='' @ strip squote (strip dquote val))
                else Inr token)
         | _ \<Rightarrow> Inl ValueError)
      else Inr token)"

text \<open>The loop over the tokens: the first fault ends it.\<close>

fun fix_tokens :: "string list \<Rightarrow> fault + string list" where
  "fix_tokens [] = Inr []"
| "fix_tokens (t # ts) =
     (case fix_token t of
        Inl e \<Rightarrow> Inl e
      | Inr t' \<Rightarrow> (case fix_tokens ts of Inl e \<Rightarrow> Inl e | Inr ts' \<Rightarrow> Inr (t' # ts')))"

definition split_grass_command :: "string \<Rightarrow> fault + string list" where
  "split_grass_command grass_command = fix_tokens (SPACE_MATCHER_split grass_command)"

section \<open>Collaborators and module state\<close>

text \<open>
  The libraries and services the script calls are parameters of the model:
  \<^item> \<open>loads\<close> is \<^verbatim>\<open>simplejson.loads\<close>, \<open>None\<close> when it raises;
  \<^item> \<open>dumps\<close> is \<^verbatim>\<open>simplejson.dumps(..., sort_keys=False, indent=2 * ' ')\<close>;
  \<^item> \<open>popen\<close> is \<^verbatim>\<open>subprocess.Popen\<close>, \<^verbatim>\<open>communicate\<close> and the two
    \<^verbatim>\<open>decode\<close> calls: the exit code and the decoded streams, or the fault
    raised by spawning or decoding, which nothing catches;
  \<^item> \<open>http_post\<close> is \<^verbatim>\<open>requests.post\<close> on a URL and a JSON body;
  \<^item> \<open>http_get\<close> is \<^verbatim>\<open>requests.get\<close>: the answer to the \<open>n\<close>-th request
    (counted from 0) that the polling loop sends to a URL;
  \<^item> \<open>str_of\<close> is \<^verbatim>\<open>str\<close> on an object that is not a string, \<open>str_list\<close> is
    \<^verbatim>\<open>str\<close> on a list of strings.
\<close>

record response =
  status_code :: int
  resp_text :: string

record env =
  loads :: "string \<Rightarrow> pyval option"
  dumps :: "pyval \<Rightarrow> string"
  popen :: "string list \<Rightarrow> fault + (int \<times> string \<times> string)"
  http_post :: "string \<Rightarrow> pyval \<Rightarrow> fault + response"
  http_get :: "pyval \<Rightarrow> nat \<Rightarrow> fault + response"
  str_of :: "pyval \<Rightarrow> string"
  str_list :: "string list \<Rightarrow> string"

text \<open>The module's globals that \<^verbatim>\<open>send_poll_commands\<close> reads.\<close>

record globals =
  ACTINIA_URL :: string
  ACTINIA_VERSION :: string
  ACTINIA_USER :: string
  LOCATION :: string
  DRY_RUN :: bool

text \<open>The global \<^verbatim>\<open>PCHAIN\<close>: a version and the list of operations.\<close>

record pchain =
  version :: string
  oplist :: "pyval list"

definition PCHAIN :: pchain where
  "PCHAIN = \<lparr>version = ''1'', oplist = []\<rparr>"

definition pchain_json :: "pchain \<Rightarrow> pyval" where
  "pchain_json ch = PDict [(''version'', PStr (version ch)), (''list'', PList (oplist ch))]"

text \<open>What the run shows and does, in order.\<close>

datatype event =
    Print "pyval list"
  | PPrint pyval
  | Post string pyval
  | Get pyval
  | Sleep nat

text \<open>The value an f-string or \<^verbatim>\<open>%s\<close> puts in for an object: a string stands for itself.\<close>

fun format :: "env \<Rightarrow> pyval \<Rightarrow> string" where
  "format E (PStr s) = s"
| "format E v = str_of E v"

section \<open>Operation compiler: \<^verbatim>\<open>create_actinia_process\<close>\<close>

definition newline :: char where
  "newline = CHR 0x0A"

text \<open>
  \<^verbatim>\<open>return None\<close> and a parsed \<^verbatim>\<open>null\<close> are the same object \<open>PNone\<close>.
  \<^verbatim>\<open>command.append("--json")\<close> changes the list that the message of the second
  exception prints.
\<close>

definition create_actinia_process :: "env \<Rightarrow> string list \<Rightarrow> fault + pyval" where
  "create_actinia_process E command =
     (if command = [] then Inr PNone
      else if ''--help'' \<in> set command then
        Inl (PyException (''--help is not allowed inside grass_command: '' @ str_list E command))
      else
        (let command' = (if ''--json'' \<notin> set command then command @ [''--json''] else command)
         in case popen E command' of
              Inl f \<Rightarrow> Inl f
            | Inr (returncode, stdout_buff, stderr_buff) \<Rightarrow>
                if returncode \<noteq> 0 then
                  Inl (PyException (''Error while executing GRASS command: '' @ str_list E command'
                        @ ''. '' @ [newline, newline] @ stdout_buff @ [newline]
                        @ stderr_buff @ [newline]))
                else (case loads E stdout_buff of
                        None \<Rightarrow> Inl JSONDecodeError
                      | Some actinia_proc \<Rightarrow> Inr actinia_proc)))"

section \<open>Chain builder: the first loop of \<^verbatim>\<open>send_poll_commands\<close>\<close>

text \<open>\<^verbatim>\<open>if p_chain: PCHAIN["list"].append(p_chain)\<close>\<close>

definition pchain_append :: "pchain \<Rightarrow> pyval \<Rightarrow> pchain" where
  "pchain_append ch p_chain =
     (if truthy p_chain then ch\<lparr>oplist := oplist ch @ [p_chain]\<rparr> else ch)"

text \<open>
  The loop \<^verbatim>\<open>for command in commands\<close>: the chain it leaves in \<^verbatim>\<open>PCHAIN\<close>,
  and the fault that ended it, if any.  What was appended before a fault stays
  appended.
\<close>

fun build_chain :: "env \<Rightarrow> pchain \<Rightarrow> string list list \<Rightarrow> pchain \<times> fault option" where
  "build_chain E ch [] = (ch, None)"
| "build_chain E ch (command # commands) =
     (case create_actinia_process E command of
        Inl f \<Rightarrow> (ch, Some f)
      | Inr p_chain \<Rightarrow> build_chain E (pchain_append ch p_chain) commands)"

section \<open>Submission\<close>

text \<open>\<^verbatim>\<open>if mapset:\<close> holds for a non-empty string; \<open>None\<close> is \<^verbatim>\<open>None\<close> or \<^verbatim>\<open>False\<close>.\<close>

definition submit_url :: "globals \<Rightarrow> string option \<Rightarrow> string" where
  "submit_url G mapset =
     (case mapset of
        Some (c # cs) \<Rightarrow>
          ACTINIA_URL G @ ''/api/'' @ ACTINIA_VERSION G @ ''/locations/'' @ LOCATION G
            @ ''/mapsets/'' @ (c # cs) @ ''/processing_async''
      | _ \<Rightarrow>
          ACTINIA_URL G @ ''/api/'' @ ACTINIA_VERSION G @ ''/locations/'' @ LOCATION G
            @ ''/processing_async_export'')"

text \<open>
  The \<open>msg\<close> of the branch \<^verbatim>\<open>req.status_code not in [200, 201]\<close>.  Whatever the
  \<^verbatim>\<open>try\<close> block raises (the parser, \<^verbatim>\<open>in\<close> on an object that is not
  iterable, the subscription) is caught, and the body text is the message.
\<close>

definition post_error_msg :: "env \<Rightarrow> string \<Rightarrow> string" where
  "post_error_msg E body =
     (case loads E body of
        None \<Rightarrow> body
      | Some data \<Rightarrow>
          (case contains ''message'' data of
             Inl f \<Rightarrow> body
           | Inr False \<Rightarrow> []
           | Inr True \<Rightarrow>
               (case getitem data (PStr ''message'') of
                  Inl f \<Rightarrow> body
                | Inr m \<Rightarrow> '': '' @ format E m)))"

text \<open>The fixed part of that message, \<^verbatim>\<open>f"ERROR posting to url '{url}'"\<close>.\<close>

definition post_error_prefix :: "string \<Rightarrow> string" where
  "post_error_prefix url = ''ERROR posting to url '' @ [squote] @ url @ [squote]"

text \<open>
  From the three \<^verbatim>\<open>print\<close> calls before the POST to \<^verbatim>\<open>print("Polling:", poll_url)\<close>.
  \<^verbatim>\<open>grass.fatal\<close> ends the process; the translation function \<^verbatim>\<open>_\<close> has no
  entry for a text built at run time and gives it back.
  The result is the status URL to poll.
\<close>

definition submit :: "env \<Rightarrow> globals \<Rightarrow> pchain \<Rightarrow> string option \<Rightarrow> event list \<times> (fault + pyval)" where
  "submit E G ch mapset =
     (let url = submit_url G mapset;
          tr = [Print [PStr url], Print [pchain_json ch], Print [PStr (ACTINIA_USER G)],
                Post url (pchain_json ch)]
      in case http_post E url (pchain_json ch) of
           Inl f \<Rightarrow> (tr, Inl f)
         | Inr req \<Rightarrow>
             if status_code req \<notin> {200, 201} then
               (tr, Inl (Fatal (post_error_prefix url @ post_error_msg E (resp_text req))))
             else
               (case loads E (resp_text req) of
                  None \<Rightarrow> (tr, Inl (Fatal (resp_text req)))
                | Some data \<Rightarrow>
                    (case getitem data (PStr ''status'') of
                       Inl f \<Rightarrow> (tr, Inl f)
                     | Inr st \<Rightarrow>
                         (case getitem data (PStr ''urls'') of
                            Inl f \<Rightarrow> (tr @ [Print [PStr ''Resource status'', st]], Inl f)
                          | Inr urls \<Rightarrow>
                              (case getitem urls (PStr ''status'') of
                                 Inl f \<Rightarrow> (tr @ [Print [PStr ''Resource status'', st]], Inl f)
                               | Inr poll_url \<Rightarrow>
                                   (tr @ [Print [PStr ''Resource status'', st],
                                          Print [PStr ''Polling:'', poll_url]],
                                    Inr poll_url))))))"

section \<open>Polling loop\<close>

definition terminal :: "pyval \<Rightarrow> bool" where
  "terminal st \<longleftrightarrow> st = PStr ''finished'' \<or> st = PStr ''error'' \<or> st = PStr ''terminated''"

text \<open>How one pass through the body of a loop ends.\<close>

datatype 'a pass = Break 'a | Raise fault | Continue

text \<open>
  One pass through the body of \<^verbatim>\<open>while True\<close>, for the \<open>n\<close>-th request
  (counted from 0): what it shows and does, and how it ends.  A fault of the
  transport, of the parser or of a subscription leaves the loop and the
  function (\<^verbatim>\<open>except Exception: raise\<close>).  On \<^verbatim>\<open>break\<close> the variables
  \<^verbatim>\<open>r\<close>, \<^verbatim>\<open>data\<close> and \<^verbatim>\<open>final_status\<close> are what the code after the loop reads.
\<close>

definition poll_once :: "env \<Rightarrow> pyval \<Rightarrow> nat \<Rightarrow> event list \<times> (response \<times> pyval \<times> pyval) pass" where
  "poll_once E poll_url n =
     (case http_get E poll_url n of
        Inl f \<Rightarrow> ([Get poll_url], Raise f)
      | Inr r \<Rightarrow>
          (case loads E (resp_text r) of
             None \<Rightarrow> ([Get poll_url], Raise JSONDecodeError)
           | Some data \<Rightarrow>
               (case getitem data (PStr ''status'') of
                  Inl f \<Rightarrow> ([Get poll_url], Raise f)
                | Inr st \<Rightarrow>
                    (case getitem data (PStr ''message'') of
                       Inl f \<Rightarrow>
                         ([Get poll_url, Print [PStr ''Resource poll status:'', st]], Raise f)
                     | Inr m \<Rightarrow>
                         if terminal st then
                           ([Get poll_url, Print [PStr ''Resource poll status:'', st], Print [m]],
                            Break (r, data, st))
                         else
                           ([Get poll_url, Print [PStr ''Resource poll status:'', st], Print [m],
                             Sleep 1],
                            Continue)))))"

text \<open>
  The loop.  \<open>n\<close> counts the requests already sent, \<open>tr\<close> is the trace so
  far.  The loop has no bound: where it never leaves, the value is \<open>None\<close>.
\<close>

partial_function (option) poll_loop ::
  "env \<Rightarrow> pyval \<Rightarrow> nat \<Rightarrow> event list \<Rightarrow> (event list \<times> (fault + response \<times> pyval \<times> pyval)) option"
where
  "poll_loop E poll_url n tr =
     (case poll_once E poll_url n of
        (evs, Raise f) \<Rightarrow> Some (tr @ evs, Inl f)
      | (evs, Break x) \<Rightarrow> Some (tr @ evs, Inr x)
      | (evs, Continue) \<Rightarrow> poll_loop E poll_url (Suc n) (tr @ evs))"

section \<open>Result reporter\<close>

text \<open>The body of \<^verbatim>\<open>for entry in data["process_log"]\<close>, entry after entry.\<close>

fun walk_log :: "pyval list \<Rightarrow> event list \<Rightarrow> event list \<times> fault option" where
  "walk_log [] tr = (tr, None)"
| "walk_log (entry # entries) tr =
     (case getitem entry (PStr ''stdout'') of
        Inl f \<Rightarrow> (tr, Some f)
      | Inr out \<Rightarrow>
          (let tr1 = (if truthy out then tr @ [Print [out]] else tr)
           in case getitem entry (PStr ''stderr'') of
                Inl f \<Rightarrow> (tr1, Some f)
              | Inr err \<Rightarrow>
                  (case getitem err (PInt 0) of
                     Inl f \<Rightarrow> (tr1, Some f)
                   | Inr err0 \<Rightarrow>
                       walk_log entries (if truthy err0 then tr1 @ [PPrint err] else tr1))))"

definition rule_line :: string where
  "rule_line = replicate 74 (CHR ''-'')"

text \<open>From the line of dashes to the end of \<^verbatim>\<open>send_poll_commands\<close>.\<close>

definition report :: "response \<Rightarrow> pyval \<Rightarrow> pyval \<Rightarrow> event list \<Rightarrow> event list \<times> fault option" where
  "report r data final_status tr =
     (let tr0 = tr @ [Print [PStr rule_line]]
      in if status_code r = 200 then
           if final_status = PStr ''terminated'' then (tr0 @ [Print [PStr (resp_text r)]], None)
           else
             (case getitem data (PStr ''process_log'') of
                Inl f \<Rightarrow> (tr0, Some f)
              | Inr plog \<Rightarrow>
                  (case iterate plog of
                     Inl f \<Rightarrow> (tr0, Some f)
                   | Inr entries \<Rightarrow>
                       (case walk_log entries tr0 of
                          (tr1, Some f) \<Rightarrow> (tr1, Some f)
                        | (tr1, None) \<Rightarrow>
                            (case getitem data (PStr ''urls'') of
                               Inl f \<Rightarrow> (tr1, Some f)
                             | Inr urls \<Rightarrow> (tr1 @ [PPrint urls], None)))))
         else (tr0 @ [Print [PStr (resp_text r)]], None))"

section \<open>\<^verbatim>\<open>send_poll_commands\<close>\<close>

text \<open>
  The whole function on the chain \<open>ch\<close> that \<^verbatim>\<open>PCHAIN\<close> holds at entry: the
  chain it leaves, what it shows, and the fault it ends with, if any.  \<open>None\<close>
  is the run that polls for ever.
\<close>

definition send_poll_commands ::
  "env \<Rightarrow> globals \<Rightarrow> pchain \<Rightarrow> string list list \<Rightarrow> string option
     \<Rightarrow> (pchain \<times> event list \<times> fault option) option" where
  "send_poll_commands E G ch commands mapset =
     (case build_chain E ch commands of
        (ch', Some f) \<Rightarrow> Some (ch', [], Some f)
      | (ch', None) \<Rightarrow>
          if DRY_RUN G then Some (ch', [Print [PStr (dumps E (pchain_json ch'))]], None)
          else
            (case submit E G ch' mapset of
               (tr, Inl f) \<Rightarrow> Some (ch', tr, Some f)
             | (tr, Inr poll_url) \<Rightarrow>
                 (case poll_loop E poll_url 0 tr of
                    None \<Rightarrow> None
                  | Some (tr', Inl f) \<Rightarrow> Some (ch', tr', Some f)
                  | Some (tr', Inr (r, data, final_status)) \<Rightarrow>
                      (case report r data final_status tr' of
                         (tr'', res) \<Rightarrow> Some (ch', tr'', res)))))"

section \<open>Notions of the specification\<close>

text \<open>\<^verbatim>\<open>sep.join(tokens)\<close>\<close>

fun join :: "string \<Rightarrow> string list \<Rightarrow> string" where
  "join sep [] = []"
| "join sep [t] = t"
| "join sep (t # u # ts) = t @ sep @ join sep (u # ts)"

text \<open>
  An occurrence of \<open>d\<close> is unquoted when an even number of quote characters
  follows it; this counts the unquoted occurrences.
\<close>

fun count_unquoted :: "char \<Rightarrow> string \<Rightarrow> nat" where
  "count_unquoted d [] = 0"
| "count_unquoted d (c # cs) =
     (if c = d \<and> even (length (filter is_quote cs)) then 1 else 0) + count_unquoted d cs"

text \<open>
  In the words of the specification: a line has balanced quotes when every
  quote character that opens a quoted stretch is followed by the same
  character closing it.
\<close>

fun balanced_from :: "char option \<Rightarrow> string \<Rightarrow> bool" where
  "balanced_from None [] = True"
| "balanced_from (Some q) [] = False"
| "balanced_from None (c # cs) =
     (if is_quote c then balanced_from (Some c) cs else balanced_from None cs)"
| "balanced_from (Some q) (c # cs) =
     (if c = q then balanced_from None cs else balanced_from (Some q) cs)"

definition balanced_quotes :: "string \<Rightarrow> bool" where
  "balanced_quotes s = balanced_from None s"

text \<open>
  In the words of the specification: exactly one layer of the quote character
  is taken from each end of the value.
\<close>

definition strip_one_layer :: "string \<Rightarrow> string" where
  "strip_one_layer val = butlast (tl val)"

section \<open>Example inputs\<close>

text \<open>The command line \<^verbatim>\<open>r.mapcalc expression="a = b + 1"\<close>.\<close>

definition mapcalc_line :: string where
  "mapcalc_line = ''r.mapcalc expression='' @ [dquote] @ ''a = b + 1'' @ [dquote]"

text \<open>The command line \<^verbatim>\<open>g.region raster=elevation -p\<close>.\<close>

definition region_line :: string where
  "region_line = ''g.region raster=elevation -p''"

text \<open>The command line \<^verbatim>\<open>r.info "my map"\<close> and its second token.\<close>

definition quoted_name :: string where
  "quoted_name = [dquote] @ ''my map'' @ [dquote]"

definition quoted_name_line :: string where
  "quoted_name_line = ''r.info '' @ quoted_name"

text \<open>The token \<^verbatim>\<open>expression="a = b + 1"\<close> of the first line and its value.\<close>

definition mapcalc_value :: string where
  "mapcalc_value = [dquote] @ ''a = b + 1'' @ [dquote]"

definition mapcalc_token :: string where
  "mapcalc_token = ''expression='' @ mapcalc_value"

text \<open>The command line \<^verbatim>\<open>k=""a""\<close>, one token, and its value \<^verbatim>\<open>""a""\<close>.\<close>

definition nested_value :: string where
  "nested_value = [dquote, dquote] @ ''a'' @ [dquote, dquote]"

definition nested_line :: string where
  "nested_line = ''k='' @ nested_value"

text \<open>
  The command line \<^verbatim>\<open>k='"a"'\<close>, one token, and its value: double quotes
  inside single quotes.
\<close>

definition inner_quoted_value :: string where
  "inner_quoted_value = [squote, dquote] @ ''a'' @ [dquote, squote]"

definition inner_quoted_line :: string where
  "inner_quoted_line = ''k='' @ inner_quoted_value"

text \<open>
  Three malformed option tokens: \<^verbatim>\<open>k="\<close> has no unquoted \<^verbatim>\<open>=\<close>,
  \<^verbatim>\<open>a=b="c"\<close> has two, and \<^verbatim>\<open>"k"=\<close> has one with nothing after it.
\<close>

definition open_quote_token :: string where
  "open_quote_token = ''k='' @ [dquote]"

definition two_equals_token :: string where
  "two_equals_token = ''a=b='' @ [dquote] @ ''c'' @ [dquote]"

definition empty_value_token :: string where
  "empty_value_token = [dquote] @ ''k'' @ [dquote] @ ''=''"

section \<open>Notions of the specification: the reporter\<close>

text \<open>
  In the words of the specification: for a step the reporter prints its
  \<open>stdout\<close> when that is non-empty, and prints its \<open>stderr\<close> when the first
  element of \<open>stderr\<close> is non-empty.
\<close>

definition step_prints :: "pyval \<Rightarrow> pyval list \<Rightarrow> event list" where
  "step_prints out errs =
     (if truthy out then [Print [out]] else [])
     @ (if truthy (hd errs) then [PPrint (PList errs)] else [])"

definition entry_prints :: "pyval \<Rightarrow> event list" where
  "entry_prints entry =
     (case (getitem entry (PStr ''stdout''), getitem entry (PStr ''stderr'')) of
        (Inr out, Inr (PList errs)) \<Rightarrow> step_prints out errs
      | _ \<Rightarrow> [])"

text \<open>A step log as the service sends it: it has \<open>stdout\<close>, and a list \<open>stderr\<close> with a first element.\<close>

definition step_log :: "pyval \<Rightarrow> bool" where
  "step_log entry \<longleftrightarrow>
     (\<exists>out errs. getitem entry (PStr ''stdout'') = Inr out
        \<and> getitem entry (PStr ''stderr'') = Inr (PList errs) \<and> errs \<noteq> [])"

text \<open>The requests of the polling loop in a trace.\<close>

fun is_Get :: "event \<Rightarrow> bool" where
  "is_Get (Get u) = True"
| "is_Get e = False"

definition polls :: "event list \<Rightarrow> nat" where
  "polls tr = length (filter is_Get tr)"

text \<open>
  A poll answer that the loop can read: it parses, and the parsed object has a
  \<open>status\<close> and a \<open>message\<close>.
\<close>

definition snapshot :: "env \<Rightarrow> response \<Rightarrow> pyval \<Rightarrow> pyval \<Rightarrow> pyval \<Rightarrow> bool" where
  "snapshot E r data st m \<longleftrightarrow>
     loads E (resp_text r) = Some data
     \<and> getitem data (PStr ''status'') = Inr st
     \<and> getitem data (PStr ''message'') = Inr m"

text \<open>The \<open>i\<close>-th answer is a snapshot whose status is not terminal.\<close>

definition keeps_polling :: "env \<Rightarrow> pyval \<Rightarrow> nat \<Rightarrow> bool" where
  "keeps_polling E u i \<longleftrightarrow>
     (\<exists>r data st m. http_get E u i = Inr r \<and> snapshot E r data st m \<and> \<not> terminal st)"

text \<open>What one poll shows: the request, the status line, the message.\<close>

definition poll_round :: "pyval \<Rightarrow> pyval \<Rightarrow> pyval \<Rightarrow> event list" where
  "poll_round u st m = [Get u, Print [PStr ''Resource poll status:'', st], Print [m]]"

section \<open>Scripted collaborators\<close>

text \<open>A JSON string literal, and the text of an object with string members.\<close>

definition jstr :: "string \<Rightarrow> string" where
  "jstr s = [dquote] @ s @ [dquote]"

definition status_text :: "string \<Rightarrow> string" where
  "status_text st =
     ''{'' @ jstr ''status'' @ '': '' @ jstr st @ '', '' @ jstr ''message'' @ '': '' @ jstr ''ok'' @ ''}''"

definition status_object :: "string \<Rightarrow> pyval" where
  "status_object st = PDict [(''status'', PStr st), (''message'', PStr ''ok'')]"

text \<open>
  A parser that knows the texts of the examples below and what they stand
  for, and rejects every other text.
\<close>

definition known_texts :: "(string \<times> pyval) list" where
  "known_texts =
     [(status_text ''running'', status_object ''running''),
      (status_text ''finished'', status_object ''finished''),
      (status_text ''error'', status_object ''error''),
      (''{'' @ jstr ''message'' @ '': '' @ jstr ''bad request'' @ ''}'',
         PDict [(''message'', PStr ''bad request'')]),
      (''{'' @ jstr ''code'' @ '': 400}'', PDict [(''code'', PInt 400)]),
      (''{'' @ jstr ''module'' @ '': '' @ jstr ''g.region'' @ ''}'',
         PDict [(''module'', PStr ''g.region'')]),
      (''{'' @ jstr ''module'' @ '': '' @ jstr ''r.info'' @ ''}'',
         PDict [(''module'', PStr ''r.info'')])]"

definition stub_loads :: "string \<Rightarrow> pyval option" where
  "stub_loads s = map_of known_texts s"

text \<open>
  A tool that compiles \<^verbatim>\<open>g.region\<close> and \<^verbatim>\<open>r.info\<close> and fails on anything
  else, writing to both streams.
\<close>

definition stub_popen :: "string list \<Rightarrow> fault + (int \<times> string \<times> string)" where
  "stub_popen command =
     (case command of
        [] \<Rightarrow> Inl (External ''no program'')
      | program # args \<Rightarrow>
          if program = ''g.region'' \<or> program = ''r.info''
          then Inr (0, ''{'' @ jstr ''module'' @ '': '' @ jstr program @ ''}'', [])
          else Inr (1, ''usage'', ''ERROR: unknown module''))"

text \<open>A service that answers the \<open>n\<close>-th request with the \<open>n\<close>-th of the given responses.\<close>

definition scripted :: "response list \<Rightarrow> pyval \<Rightarrow> nat \<Rightarrow> fault + response" where
  "scripted rs url n =
     (if n < length rs then Inr (rs ! n) else Inl (External ''connection closed''))"

definition ok_response :: "string \<Rightarrow> response" where
  "ok_response body = \<lparr>status_code = 200, resp_text = body\<rparr>"

definition stub_env :: "response \<Rightarrow> response list \<Rightarrow> env" where
  "stub_env posted rs =
     \<lparr>loads = stub_loads, dumps = (\<lambda>v. []), popen = stub_popen,
      http_post = (\<lambda>url body. Inr posted), http_get = scripted rs,
      str_of = (\<lambda>v. ''<object>''), str_list = concat\<rparr>"

text \<open>The defaults of the module, with a location.\<close>

definition defaults :: globals where
  "defaults =
     \<lparr>ACTINIA_URL = ''https://actinia.mundialis.de'', ACTINIA_VERSION = ''v3'',
      ACTINIA_USER = ''demouser'', LOCATION = ''nc_spm_08'', DRY_RUN = False\<rparr>"

section \<open>Example runs\<close>

text \<open>The status URL of a job, and two scripts of poll answers.\<close>

definition status_url :: pyval where
  "status_url = PStr ''https://actinia.mundialis.de/api/v3/resources/demouser/resource_id-1''"

definition script_finished :: "response list" where
  "script_finished =
     [ok_response (status_text ''running''), ok_response (status_text ''running''),
      ok_response (status_text ''finished'')]"

definition script_error :: "response list" where
  "script_error = [ok_response (status_text ''running''), ok_response (status_text ''error'')]"

text \<open>
  Answers to the submission that the service rejects: with a message, without
  one, and with a body that is no JSON text.  The URL is the one the defaults
  give without a mapset.
\<close>

definition rejected :: "string \<Rightarrow> response" where
  "rejected body = \<lparr>status_code = 400, resp_text = body\<rparr>"

definition no_message_body :: string where
  "no_message_body = ''{'' @ jstr ''code'' @ '': 400}''"

definition unparsed_body :: string where
  "unparsed_body = ''<html>Bad Gateway</html>''"

definition message_body :: string where
  "message_body = ''{'' @ jstr ''message'' @ '': '' @ jstr ''bad request'' @ ''}''"

definition export_url :: string where
  "export_url = ''https://actinia.mundialis.de/api/v3/locations/nc_spm_08/processing_async_export''"

text \<open>
  Step logs, each as the object and as its JSON text: one with output on both
  streams, one with none, and one whose \<open>stderr\<close> list is empty.
\<close>

definition loud_step :: pyval where
  "loud_step = PDict [(''stdout'', PStr ''projection: 99''), (''stderr'', PList [PStr ''WARNING: no units''])]"

definition loud_text :: string where
  "loud_text = ''{'' @ jstr ''stdout'' @ '': '' @ jstr ''projection: 99'' @ '', ''
     @ jstr ''stderr'' @ '': ['' @ jstr ''WARNING: no units'' @ '']}''"

definition quiet_step :: pyval where
  "quiet_step = PDict [(''stdout'', PStr []), (''stderr'', PList [PStr []])]"

definition quiet_text :: string where
  "quiet_text = ''{'' @ jstr ''stdout'' @ '': '' @ jstr [] @ '', ''
     @ jstr ''stderr'' @ '': ['' @ jstr [] @ '']}''"

definition broken_step :: pyval where
  "broken_step = PDict [(''stdout'', PStr ''done''), (''stderr'', PList [])]"

definition broken_text :: string where
  "broken_text = ''{'' @ jstr ''stdout'' @ '': '' @ jstr ''done'' @ '', ''
     @ jstr ''stderr'' @ '': []}''"

text \<open>
  The last poll answer of a job with a given status and given steps: the
  parsed data, the text it is parsed from, and the response with a given
  status code that carries the text.
\<close>

definition links :: pyval where
  "links = PDict [(''status'', status_url), (''resources'', PList [])]"

definition links_text :: string where
  "links_text = ''{'' @ jstr ''status'' @ '': ''
     @ jstr ''https://actinia.mundialis.de/api/v3/resources/demouser/resource_id-1''
     @ '', '' @ jstr ''resources'' @ '': []}''"

definition job_data :: "string \<Rightarrow> pyval list \<Rightarrow> pyval" where
  "job_data st steps =
     PDict [(''status'', PStr st), (''message'', PStr ''ok''),
            (''process_log'', PList steps), (''urls'', links)]"

definition job_text :: "string \<Rightarrow> string list \<Rightarrow> string" where
  "job_text st steps =
     ''{'' @ jstr ''status'' @ '': '' @ jstr st @ '', '' @ jstr ''message'' @ '': '' @ jstr ''ok''
     @ '', '' @ jstr ''process_log'' @ '': ['' @ join '', '' steps @ ''], ''
     @ jstr ''urls'' @ '': '' @ links_text @ ''}''"

definition job_response :: "int \<Rightarrow> string \<Rightarrow> string list \<Rightarrow> response" where
  "job_response code st steps = \<lparr>status_code = code, resp_text = job_text st steps\<rparr>"

section \<open>Properties of the tokenizer\<close>

subsection \<open>The lookahead counts quotes\<close>

lemma filter_dropWhile_not: "filter P (dropWhile (\<lambda>c. \<not> P c) s) = filter P s"
  by (induction s) auto

lemma dropWhile_not_Cons_hd: "dropWhile (\<lambda>c. \<not> P c) s = q # r \<Longrightarrow> P q"
  using hd_dropWhile [of "\<lambda>c. \<not> P c" s] by auto

text \<open>The lookahead succeeds exactly when an even number of quote characters follows.\<close>

lemma lookahead_even: "lookahead s = even (length (filter is_quote s))"
proof (induction s rule: lookahead.induct)
  case (1 s)
  show ?case
  proof (cases "dropWhile (\<lambda>c. \<not> is_quote c) s")
    case Nil
    have v: "lookahead s"
      by (subst lookahead.simps) (simp only: Nil list.case)
    have "filter is_quote s = []"
      using filter_dropWhile_not [of is_quote s] Nil by simp
    with v show ?thesis by simp
  next
    case (Cons q1 r)
    note c1 = Cons
    have q1: "is_quote q1" using dropWhile_not_Cons_hd [OF c1] .
    have f1: "filter is_quote s = q1 # filter is_quote r"
      using filter_dropWhile_not [of is_quote s] c1 q1 by simp
    show ?thesis
    proof (cases "dropWhile (\<lambda>c. \<not> is_quote c) r")
      case Nil
      have v: "\<not> lookahead s"
        by (subst lookahead.simps) (simp only: c1 Nil list.case not_False_eq_True)
      have "filter is_quote r = []"
        using filter_dropWhile_not [of is_quote r] Nil by simp
      with v f1 show ?thesis by simp
    next
      case (Cons q2 r')
      have q2: "is_quote q2" using dropWhile_not_Cons_hd [OF Cons] .
      have f2: "filter is_quote r = q2 # filter is_quote r'"
        using filter_dropWhile_not [of is_quote r] Cons q2 by simp
      have "lookahead s = lookahead r'"
        by (subst lookahead.simps) (simp only: c1 Cons list.case)
      also have "\<dots> = even (length (filter is_quote r'))"
        using "1.IH" [OF c1 Cons] .
      finally show ?thesis using f1 f2 by simp
    qed
  qed
qed

lemma no_quote_lookahead: "\<forall>c\<in>set s. \<not> is_quote c \<Longrightarrow> lookahead s"
  by (simp add: lookahead_even)

text \<open>The deterministic run finds a match whenever the pattern has one.\<close>

lemma lookahead_match_even: "lookahead_match s \<Longrightarrow> even (length (filter is_quote s))"
  by (induction rule: lookahead_match.induct) simp_all

lemma lookahead_finds_match: "lookahead s \<Longrightarrow> lookahead_match s"
proof (induction s rule: lookahead.induct)
  case (1 s)
  let ?a = "takeWhile (\<lambda>c. \<not> is_quote c) s"
  have a: "\<forall>c\<in>set ?a. \<not> is_quote c" using set_takeWhileD by fastforce
  show ?case
  proof (cases "dropWhile (\<lambda>c. \<not> is_quote c) s")
    case Nil
    then have "\<forall>c\<in>set s. \<not> is_quote c" by simp
    then show ?thesis by (rule lookahead_match.tail)
  next
    case (Cons q1 r)
    note c1 = Cons
    let ?b = "takeWhile (\<lambda>c. \<not> is_quote c) r"
    have b: "\<forall>c\<in>set ?b. \<not> is_quote c" using set_takeWhileD by fastforce
    have q1: "is_quote q1" using dropWhile_not_Cons_hd [OF c1] .
    have s: "s = ?a @ q1 # r" using takeWhile_dropWhile_id [of "\<lambda>c. \<not> is_quote c" s] c1 by simp
    show ?thesis
    proof (cases "dropWhile (\<lambda>c. \<not> is_quote c) r")
      case Nil
      have "\<not> lookahead s"
        by (subst lookahead.simps) (simp only: c1 Nil list.case not_False_eq_True)
      with "1.prems" show ?thesis by simp
    next
      case (Cons q2 r')
      have q2: "is_quote q2" using dropWhile_not_Cons_hd [OF Cons] .
      have r: "r = ?b @ q2 # r'"
        using takeWhile_dropWhile_id [of "\<lambda>c. \<not> is_quote c" r] Cons by simp
      have "lookahead s = lookahead r'"
        by (subst lookahead.simps) (simp only: c1 Cons list.case)
      then have "lookahead_match r'" using "1.IH" [OF c1 Cons] "1.prems" by simp
      then have "lookahead_match (?a @ q1 # ?b @ q2 # r')"
        using a q1 b q2 by (intro lookahead_match.group)
      then show ?thesis using s r by simp
    qed
  qed
qed

lemma lookahead_iff_match: "lookahead s \<longleftrightarrow> lookahead_match s"
  using lookahead_finds_match lookahead_match_even lookahead_even by blast

subsection \<open>Splitting\<close>

lemma re_split_not_Nil: "re_split d cur s \<noteq> []"
  by (induction s arbitrary: cur) auto

lemma length_re_split: "length (re_split d cur s) = Suc (count_unquoted d s)"
  by (induction s arbitrary: cur) (auto simp: lookahead_even)

lemma re_split_no_match: "d \<notin> set s \<Longrightarrow> re_split d cur s = [cur @ s]"
  by (induction s arbitrary: cur) auto

lemma re_split_at_match:
  "d \<notin> set t \<Longrightarrow> lookahead rest \<Longrightarrow>
   re_split d cur (t @ d # rest) = (cur @ t) # re_split d [] rest"
  by (induction t arbitrary: cur) auto

lemma set_join: "set (join sep ts) \<subseteq> set sep \<union> \<Union> (set ` set ts)"
  by (induction sep ts rule: join.induct) auto

text \<open>Joining undoes splitting.\<close>

lemma join_Cons: "ts \<noteq> [] \<Longrightarrow> join sep (t # ts) = t @ sep @ join sep ts"
  by (cases ts) simp_all

lemma join_re_split: "join [d] (re_split d cur s) = cur @ s"
proof (induction s arbitrary: cur)
  case Nil
  show ?case by simp
next
  case (Cons c cs)
  show ?case
  proof (cases "c = d \<and> lookahead cs")
    case True
    then have "join [d] (re_split d cur (c # cs)) = cur @ [d] @ join [d] (re_split d [] cs)"
      using join_Cons [OF re_split_not_Nil] by simp
    then show ?thesis using Cons.IH [of "[]"] True by simp
  next
    case False
    then have "re_split d cur (c # cs) = re_split d (cur @ [c]) cs" by auto
    then show ?thesis using Cons.IH [of "cur @ [c]"] by simp
  qed
qed

text \<open>Splitting undoes joining when the pieces hold neither the separator nor a quote.\<close>

lemma re_split_join:
  assumes "ts \<noteq> []"
    and "\<forall>t\<in>set ts. d \<notin> set t \<and> (\<forall>c\<in>set t. \<not> is_quote c)"
    and "\<not> is_quote d"
  shows "re_split d [] (join [d] ts) = ts"
  using assms
proof (induction "[d]" ts rule: join.induct)
  case 1
  then show ?case by simp
next
  case (2 t)
  then show ?case by (simp add: re_split_no_match)
next
  case (3 t u ts)
  have q: "\<forall>c\<in>set (join [d] (u # ts)). \<not> is_quote c"
    using set_join [of "[d]" "u # ts"] 3 by auto
  have "re_split d [] (t @ d # join [d] (u # ts)) = ([] @ t) # re_split d [] (join [d] (u # ts))"
    using 3 by (intro re_split_at_match no_quote_lookahead q) auto
  then show ?case using 3 by simp
qed

subsection \<open>The loop over the tokens\<close>

lemma fix_token_no_quote: "\<forall>c\<in>set t. \<not> is_quote c \<Longrightarrow> fix_token t = Inr t"
  by (auto simp: fix_token_def has_equals_and_quote_def is_quote_def)

lemma fix_tokens_no_quote:
  "\<forall>t\<in>set ts. \<forall>c\<in>set t. \<not> is_quote c \<Longrightarrow> fix_tokens ts = Inr ts"
  by (induction ts) (auto simp: fix_token_no_quote)

lemma fix_tokens_length: "fix_tokens ts = Inr ts' \<Longrightarrow> length ts' = length ts"
  by (induction ts arbitrary: ts') (auto split: sum.splits)

lemma fix_tokens_nth:
  "fix_tokens ts = Inr ts' \<Longrightarrow> i < length ts \<Longrightarrow> fix_token (ts ! i) = Inr (ts' ! i)"
proof (induction ts arbitrary: ts' i)
  case Nil
  then show ?case by simp
next
  case (Cons t ts)
  then show ?case by (cases i) (auto split: sum.splits)
qed

subsection \<open>The two documented examples\<close>

text \<open>
  C5: \<^verbatim>\<open>r.mapcalc expression="a = b + 1"\<close> gives the two tokens \<^verbatim>\<open>r.mapcalc\<close> and
  \<^verbatim>\<open>expression=a = b + 1\<close>: the spaces inside the quoted value stay, the
  quotes around it go.  \<^verbatim>\<open>g.region raster=elevation -p\<close> gives the three
  tokens \<^verbatim>\<open>g.region\<close>, \<^verbatim>\<open>raster=elevation\<close> and \<^verbatim>\<open>-p\<close>.
\<close>

theorem split_grass_command_examples:
  "split_grass_command mapcalc_line = Inr [''r.mapcalc'', ''expression=a = b + 1'']
   \<and> split_grass_command region_line = Inr [''g.region'', ''raster=elevation'', ''-p'']"
  by code_simp

subsection \<open>Tokenizing again\<close>

text \<open>
  C4, as the specification states it, fails: the line of the first example has
  balanced quotes, its tokens joined by single spaces are the line
  \<^verbatim>\<open>r.mapcalc expression=a = b + 1\<close>, and that line has six tokens.
\<close>

theorem retokenize_mapcalc_differs:
  "balanced_quotes mapcalc_line
   \<and> split_grass_command mapcalc_line = Inr [''r.mapcalc'', ''expression=a = b + 1'']
   \<and> split_grass_command (join '' '' [''r.mapcalc'', ''expression=a = b + 1''])
       = Inr [''r.mapcalc'', ''expression=a'', ''='', ''b'', ''+'', ''1'']
   \<and> split_grass_command (join '' '' [''r.mapcalc'', ''expression=a = b + 1''])
       \<noteq> split_grass_command mapcalc_line"
  by code_simp

text \<open>
  C4, amended: when the tokenizer strips no quotes, that is, returns the tokens
  as they were split, or when it returns tokens none of which holds a space or
  a quote character (so for every line without quote characters), joining the
  tokens by single spaces and tokenizing again gives the same tokens.
\<close>

theorem retokenize_plain_tokens:
  assumes "split_grass_command l = Inr ts"
    and "ts = SPACE_MATCHER_split l
         \<or> (\<forall>t\<in>set ts. \<forall>c\<in>set t. c \<noteq> CHR '' '' \<and> \<not> is_quote c)"
  shows "split_grass_command (join '' '' ts) = Inr ts"
  using assms(2)
proof
  assume u: "ts = SPACE_MATCHER_split l"
  have "join '' '' ts = l"
    unfolding u SPACE_MATCHER_split_def using join_re_split [of "CHR '' ''" "[]" l] by simp
  then show ?thesis using assms(1) by simp
next
  assume p: "\<forall>t\<in>set ts. \<forall>c\<in>set t. c \<noteq> CHR '' '' \<and> \<not> is_quote c"
  have "length ts = length (SPACE_MATCHER_split l)"
    using assms(1) fix_tokens_length by (simp add: split_grass_command_def)
  then have ne: "ts \<noteq> []"
    using re_split_not_Nil [of "CHR '' ''" "[]" l] by (auto simp: SPACE_MATCHER_split_def)
  have "SPACE_MATCHER_split (join '' '' ts) = ts"
    unfolding SPACE_MATCHER_split_def
    using ne p by (intro re_split_join) (auto simp: is_quote_def dquote_def squote_def)
  moreover have "fix_tokens ts = Inr ts"
    using p by (intro fix_tokens_no_quote) auto
  ultimately show ?thesis by (simp add: split_grass_command_def)
qed

theorem retokenize_plain_tokens_witness:
  "split_grass_command region_line = Inr [''g.region'', ''raster=elevation'', ''-p'']
   \<and> split_grass_command (join '' '' [''g.region'', ''raster=elevation'', ''-p''])
       = Inr [''g.region'', ''raster=elevation'', ''-p'']
   \<and> split_grass_command quoted_name_line = Inr [''r.info'', quoted_name]
   \<and> SPACE_MATCHER_split quoted_name_line = [''r.info'', quoted_name]
   \<and> split_grass_command (join '' '' [''r.info'', quoted_name]) = Inr [''r.info'', quoted_name]"
proof -
  have a: "split_grass_command region_line = Inr [''g.region'', ''raster=elevation'', ''-p'']"
    by code_simp
  have b: "\<forall>t\<in>set [''g.region'', ''raster=elevation'', ''-p''].
             \<forall>c\<in>set t. c \<noteq> CHR '' '' \<and> \<not> is_quote c"
    by (simp add: is_quote_def dquote_def squote_def)
  have c: "split_grass_command quoted_name_line = Inr [''r.info'', quoted_name]"
    by code_simp
  have d: "[''r.info'', quoted_name] = SPACE_MATCHER_split quoted_name_line"
    by code_simp
  have 1: "split_grass_command (join '' '' [''g.region'', ''raster=elevation'', ''-p''])
       = Inr [''g.region'', ''raster=elevation'', ''-p'']"
    using retokenize_plain_tokens [OF a] b by blast
  have 2: "split_grass_command (join '' '' [''r.info'', quoted_name]) = Inr [''r.info'', quoted_name]"
    using retokenize_plain_tokens [OF c] d by blast
  show ?thesis using a c d 1 2 by simp
qed

subsection \<open>Option tokens: one unquoted equals sign, a value after it\<close>

lemma re_split_single: "re_split d cur s = [b] \<Longrightarrow> b = cur @ s"
proof (induction s arbitrary: cur)
  case Nil
  then show ?case by simp
next
  case (Cons c cs)
  show ?case
  proof (cases "c = d \<and> lookahead cs")
    case True
    with Cons.prems show ?thesis using re_split_not_Nil [of d "[]" cs] by simp
  next
    case False
    with Cons.prems have "re_split d (cur @ [c]) cs = [b]" by auto
    from Cons.IH [OF this] show ?thesis by simp
  qed
qed

lemma re_split_pair: "re_split d cur s = [a, b] \<Longrightarrow> \<exists>p. a = cur @ p \<and> s = p @ d # b"
proof (induction s arbitrary: cur)
  case Nil
  then show ?case by simp
next
  case (Cons c cs)
  show ?case
  proof (cases "c = d \<and> lookahead cs")
    case True
    with Cons.prems have "a = cur" and "re_split d [] cs = [b]" by auto
    then show ?thesis using re_split_single [of d "[]" cs b] True by auto
  next
    case False
    with Cons.prems have "re_split d (cur @ [c]) cs = [a, b]" by auto
    from Cons.IH [OF this] obtain p where "a = (cur @ [c]) @ p" "cs = p @ d # b" by blast
    then have "a = cur @ (c # p) \<and> c # cs = (c # p) @ d # b" by simp
    then show ?thesis by blast
  qed
qed

lemma length_two: "length xs = 2 \<longleftrightarrow> (\<exists>a b. xs = [a, b])"
  by (cases xs; cases "tl xs") (auto simp: length_Suc_conv)

lemma equals_split_one:
  "count_unquoted (CHR ''='') t = 1 \<longleftrightarrow> (\<exists>par val. EQUALS_MATCHER_split t = [par, val])"
  using length_re_split [of "CHR ''=''" "[]" t] length_two [of "EQUALS_MATCHER_split t"]
  by (auto simp: EQUALS_MATCHER_split_def)

lemma equals_split_text:
  "EQUALS_MATCHER_split t = [par, val] \<Longrightarrow> t = par @ ''='' @ val"
  using re_split_pair [of "CHR ''=''" "[]" t par val] by (auto simp: EQUALS_MATCHER_split_def)

lemma fix_token_unpack:
  assumes "has_equals_and_quote t" and "count_unquoted (CHR ''='') t \<noteq> 1"
  shows "fix_token t = Inl ValueError"
proof -
  have "\<not> (\<exists>par val. EQUALS_MATCHER_split t = [par, val])"
    using assms(2) equals_split_one by simp
  then show ?thesis using assms(1)
    by (auto simp: fix_token_def split: list.splits)
qed

lemma fix_token_pair:
  assumes "has_equals_and_quote t" and "EQUALS_MATCHER_split t = [par, val]"
  shows "fix_token t =
     (if val = [] then Inl IndexError
      else if hd val = last val then Inr (par @ ''='' @ strip squote (strip dquote val))
      else Inr t)"
  using assms by (simp add: fix_token_def)

lemma fix_token_unguarded: "\<not> has_equals_and_quote t \<Longrightarrow> fix_token t = Inr t"
  by (simp add: fix_token_def)

lemma fix_tokens_Inr_iff:
  "(\<exists>ts'. fix_tokens ts = Inr ts') \<longleftrightarrow> (\<forall>t\<in>set ts. \<exists>t'. fix_token t = Inr t')"
  by (induction ts) (auto split: sum.splits)

lemma fix_tokens_first_fault:
  "\<forall>u\<in>set pre. \<exists>u'. fix_token u = Inr u' \<Longrightarrow> fix_token t = Inl e \<Longrightarrow>
   fix_tokens (pre @ t # post) = Inl e"
  by (induction pre) (auto split: sum.splits)

lemma fix_token_returns_iff:
  "(\<exists>t'. fix_token t = Inr t') \<longleftrightarrow>
   (has_equals_and_quote t \<longrightarrow>
      (\<exists>par val. EQUALS_MATCHER_split t = [par, val] \<and> val \<noteq> []))"
proof (cases "has_equals_and_quote t")
  case False
  then show ?thesis by (simp add: fix_token_unguarded)
next
  case g: True
  show ?thesis
  proof (cases "count_unquoted (CHR ''='') t = 1")
    case True
    then obtain par val where pv: "EQUALS_MATCHER_split t = [par, val]"
      using equals_split_one by blast
    show ?thesis using g pv fix_token_pair [OF g pv] by auto
  next
    case False
    then show ?thesis using g fix_token_unpack [OF g False] equals_split_one by auto
  qed
qed

text \<open>
  C10: for a token that holds \<^verbatim>\<open>=\<close> and a quote character, the loop body
  raises ValueError (the tuple assignment) when the number of unquoted
  \<^verbatim>\<open>=\<close> is not one, and IndexError (\<^verbatim>\<open>val[-1]\<close>) when it is one and
  nothing follows it; otherwise it returns.  So the tokenizer returns exactly
  when every such token of the line has one unquoted \<^verbatim>\<open>=\<close> and a non-empty
  value, and the fault of the first token that fails is the fault of the
  tokenizer.
\<close>

theorem tokenizer_faults:
  "(has_equals_and_quote t \<longrightarrow>
      (count_unquoted (CHR ''='') t \<noteq> 1 \<longrightarrow> fix_token t = Inl ValueError) \<and>
      (count_unquoted (CHR ''='') t = 1 \<longrightarrow>
         (\<exists>par val. t = par @ ''='' @ val \<and> EQUALS_MATCHER_split t = [par, val] \<and>
            (val = [] \<longrightarrow> fix_token t = Inl IndexError) \<and>
            (val \<noteq> [] \<longrightarrow> (\<exists>t'. fix_token t = Inr t')))))
   \<and> ((\<exists>ts. split_grass_command l = Inr ts) \<longleftrightarrow>
        (\<forall>u\<in>set (SPACE_MATCHER_split l). has_equals_and_quote u \<longrightarrow>
           (\<exists>par val. EQUALS_MATCHER_split u = [par, val] \<and> val \<noteq> [])))
   \<and> (SPACE_MATCHER_split l = pre @ t # post \<and> (\<forall>u\<in>set pre. \<exists>u'. fix_token u = Inr u') \<and>
        fix_token t = Inl e \<longrightarrow> split_grass_command l = Inl e)"
proof (intro conjI impI)
  assume g: "has_equals_and_quote t" and "count_unquoted (CHR ''='') t \<noteq> 1"
  then show "fix_token t = Inl ValueError" by (rule fix_token_unpack)
next
  assume g: "has_equals_and_quote t" and "count_unquoted (CHR ''='') t = 1"
  then obtain par val where pv: "EQUALS_MATCHER_split t = [par, val]"
    using equals_split_one by blast
  have "t = par @ ''='' @ val" using equals_split_text [OF pv] .
  moreover have "val = [] \<longrightarrow> fix_token t = Inl IndexError"
    using fix_token_pair [OF g pv] by simp
  moreover have "val \<noteq> [] \<longrightarrow> (\<exists>t'. fix_token t = Inr t')"
    using fix_token_pair [OF g pv] by simp
  ultimately show "\<exists>par val. t = par @ ''='' @ val \<and> EQUALS_MATCHER_split t = [par, val] \<and>
            (val = [] \<longrightarrow> fix_token t = Inl IndexError) \<and>
            (val \<noteq> [] \<longrightarrow> (\<exists>t'. fix_token t = Inr t'))"
    using pv by blast
next
  show "(\<exists>ts. split_grass_command l = Inr ts) \<longleftrightarrow>
        (\<forall>u\<in>set (SPACE_MATCHER_split l). has_equals_and_quote u \<longrightarrow>
           (\<exists>par val. EQUALS_MATCHER_split u = [par, val] \<and> val \<noteq> []))"
    unfolding split_grass_command_def fix_tokens_Inr_iff fix_token_returns_iff ..
next
  assume "SPACE_MATCHER_split l = pre @ t # post \<and> (\<forall>u\<in>set pre. \<exists>u'. fix_token u = Inr u') \<and>
        fix_token t = Inl e"
  then show "split_grass_command l = Inl e"
    using fix_tokens_first_fault [of pre t e post] by (simp add: split_grass_command_def)
qed

theorem tokenizer_faults_witness:
  "fix_token open_quote_token = Inl ValueError
   \<and> fix_token two_equals_token = Inl ValueError
   \<and> fix_token empty_value_token = Inl IndexError
   \<and> (\<exists>t'. fix_token mapcalc_token = Inr t')
   \<and> (\<exists>ts. split_grass_command mapcalc_line = Inr ts)
   \<and> split_grass_command (''g.region '' @ two_equals_token @ '' -p'') = Inl ValueError"
proof -
  have g: "has_equals_and_quote open_quote_token" "has_equals_and_quote two_equals_token"
    "has_equals_and_quote empty_value_token" "has_equals_and_quote mapcalc_token"
    by code_simp+
  have c: "count_unquoted (CHR ''='') open_quote_token = 0"
    "count_unquoted (CHR ''='') two_equals_token = 2"
    "count_unquoted (CHR ''='') empty_value_token = 1"
    "count_unquoted (CHR ''='') mapcalc_token = 1"
    by code_simp+
  have s: "EQUALS_MATCHER_split empty_value_token = [[dquote] @ ''k'' @ [dquote], []]"
    "EQUALS_MATCHER_split mapcalc_token = [''expression'', mapcalc_value]"
    "mapcalc_value \<noteq> []"
    by code_simp+
  have l: "SPACE_MATCHER_split mapcalc_line = [''r.mapcalc'', mapcalc_token]"
    "SPACE_MATCHER_split (''g.region '' @ two_equals_token @ '' -p'')
       = [''g.region''] @ two_equals_token # [''-p'']"
    "\<not> has_equals_and_quote ''r.mapcalc''"
    by code_simp+
  have r: "fix_token ''g.region'' = Inr ''g.region''"
    by code_simp
  have 1: "fix_token open_quote_token = Inl ValueError"
    using tokenizer_faults [of open_quote_token] g c by simp
  have 2: "fix_token two_equals_token = Inl ValueError"
    using tokenizer_faults [of two_equals_token] g c by simp
  have 3: "fix_token empty_value_token = Inl IndexError"
    using tokenizer_faults [of empty_value_token] g c s by auto
  have 4: "\<exists>t'. fix_token mapcalc_token = Inr t'"
    using tokenizer_faults [of mapcalc_token] g c s by auto
  have 5: "\<exists>ts. split_grass_command mapcalc_line = Inr ts"
    using tokenizer_faults [of _ mapcalc_line] l s g by auto
  have 6: "split_grass_command (''g.region '' @ two_equals_token @ '' -p'') = Inl ValueError"
    using tokenizer_faults [of two_equals_token "''g.region '' @ two_equals_token @ '' -p''"
        "[''g.region'']" "[''-p'']" ValueError] l(2) r 2 by simp
  show ?thesis using 1 2 3 4 5 6 by blast
qed

subsection \<open>Stripping the quotes of a value\<close>

lemma dropWhile_rev_last:
  assumes "s \<noteq> []" and "last s \<noteq> c"
  shows "dropWhile (\<lambda>y. y = c) (rev s) = rev s"
proof -
  obtain y ys where r: "rev s = y # ys" using assms(1) by (cases "rev s") auto
  have "hd (rev s) = last s" using assms(1) by (simp add: hd_rev)
  then have "y \<noteq> c" using r assms(2) by simp
  then show ?thesis unfolding r by simp
qed

lemma strip_noop: "s = [] \<or> (hd s \<noteq> c \<and> last s \<noteq> c) \<Longrightarrow> strip c s = s"
proof (cases s)
  case Nil
  then show ?thesis by (simp add: strip_def)
next
  case (Cons x xs)
  assume "s = [] \<or> (hd s \<noteq> c \<and> last s \<noteq> c)"
  with Cons have h: "x \<noteq> c" and l: "last s \<noteq> c" by auto
  have a: "dropWhile (\<lambda>y. y = c) s = s" using Cons h by simp
  have b: "dropWhile (\<lambda>y. y = c) (rev s) = rev s"
    using Cons l by (intro dropWhile_rev_last) simp_all
  show ?thesis unfolding strip_def a b by simp
qed

lemma strip_layer:
  assumes "inner = [] \<or> (hd inner \<noteq> c \<and> last inner \<noteq> c)"
  shows "strip c (c # inner @ [c]) = inner"
proof (cases inner)
  case Nil
  then show ?thesis by (simp add: strip_def)
next
  case (Cons x xs)
  with assms have h: "x \<noteq> c" and l: "last inner \<noteq> c" by auto
  have a: "dropWhile (\<lambda>y. y = c) (c # inner @ [c]) = inner @ [c]" using Cons h by simp
  have "dropWhile (\<lambda>y. y = c) (rev inner) = rev inner"
    using Cons l by (intro dropWhile_rev_last) simp_all
  then have b: "dropWhile (\<lambda>y. y = c) (rev (inner @ [c])) = rev inner" by simp
  show ?thesis unfolding strip_def a b by simp
qed

text \<open>
  C3, as the specification states it, fails: the value \<^verbatim>\<open>""a""\<close> of the token
  \<^verbatim>\<open>k=""a""\<close> begins and ends with the same quote character, and the tokenizer
  takes both layers off, where one layer would leave \<^verbatim>\<open>k="a"\<close>.
\<close>

theorem strip_takes_every_layer:
  "has_equals_and_quote nested_line
   \<and> SPACE_MATCHER_split nested_line = [nested_line]
   \<and> EQUALS_MATCHER_split nested_line = [''k'', nested_value]
   \<and> hd nested_value = dquote \<and> last nested_value = dquote
   \<and> split_grass_command nested_line = Inr [''k=a'']
   \<and> split_grass_command nested_line \<noteq> Inr [''k='' @ strip_one_layer nested_value]"
  by code_simp

text \<open>
  C3, amended: for a token that holds \<^verbatim>\<open>=\<close> and a quote character and whose
  value, the part after its one unquoted \<^verbatim>\<open>=\<close>, begins and ends with the same
  quote character, the tokenizer takes every leading and every trailing
  occurrence of that quote character off the value, all layers and not one
  only, and rewrites the token as key, \<^verbatim>\<open>=\<close> and what is left; this is stated
  for the values where, the quote character being the double quote, what is
  left neither begins nor ends with a single quote.  It is exactly one layer
  when the text between the two outer quotes neither begins nor ends with that
  quote character.
\<close>

theorem strip_quoted_value:
  assumes "split_grass_command l = Inr ts" and "i < length ts"
    and "SPACE_MATCHER_split l ! i = t" and "has_equals_and_quote t"
    and "EQUALS_MATCHER_split t = [par, val]"
    and "hd val = q" and "last val = q" and "is_quote q"
    and "q = dquote \<longrightarrow>
           strip q val = [] \<or> (hd (strip q val) \<noteq> squote \<and> last (strip q val) \<noteq> squote)"
  shows "t = par @ ''='' @ val
     \<and> ts ! i = par @ ''='' @ strip q val
     \<and> (\<forall>inner. val = q # inner @ [q] \<and> (inner = [] \<or> (hd inner \<noteq> q \<and> last inner \<noteq> q))
          \<longrightarrow> ts ! i = par @ ''='' @ inner)"
proof -
  have ft: "fix_tokens (SPACE_MATCHER_split l) = Inr ts"
    using assms(1) by (simp add: split_grass_command_def)
  have "i < length (SPACE_MATCHER_split l)" using fix_tokens_length [OF ft] assms(2) by simp
  from fix_tokens_nth [OF ft this] have r: "fix_token t = Inr (ts ! i)" using assms(3) by simp
  have ne: "val \<noteq> []" using r fix_token_pair [OF assms(4,5)] by (auto split: if_splits)
  have v: "ts ! i = par @ ''='' @ strip squote (strip dquote val)"
    using r fix_token_pair [OF assms(4,5)] ne assms(6,7) by simp
  have w: "strip squote (strip dquote val) = strip q val"
  proof (cases "q = dquote")
    case True
    then have "strip squote (strip dquote val) = strip dquote val"
      using assms(9) by (intro strip_noop) simp
    then show ?thesis using True by simp
  next
    case False
    then have q: "q = squote" "squote \<noteq> dquote" using assms(8) by (auto simp: is_quote_def)
    have "strip dquote val = val"
      using ne assms(6,7) q by (intro strip_noop) simp
    then show ?thesis using q by simp
  qed
  have v': "ts ! i = par @ ''='' @ strip q val" using v w by simp
  have layer: "ts ! i = par @ ''='' @ inner"
    if h: "val = q # inner @ [q] \<and> (inner = [] \<or> (hd inner \<noteq> q \<and> last inner \<noteq> q))" for inner
  proof -
    have "strip q (q # inner @ [q]) = inner" using h by (intro strip_layer) simp
    then have "strip q val = inner" using h by simp
    then show ?thesis using v' by simp
  qed
  show ?thesis
  proof (intro conjI allI impI)
    show "t = par @ ''='' @ val" using equals_split_text [OF assms(5)] .
    show "ts ! i = par @ ''='' @ strip q val" using v' .
  qed (rule layer)
qed

theorem strip_quoted_value_witness:
  "split_grass_command mapcalc_line = Inr [''r.mapcalc'', ''expression=a = b + 1'']
   \<and> EQUALS_MATCHER_split mapcalc_token = [''expression'', dquote # ''a = b + 1'' @ [dquote]]
   \<and> [''r.mapcalc'', ''expression=a = b + 1''] ! 1 = ''expression'' @ ''='' @ ''a = b + 1''
   \<and> split_grass_command inner_quoted_line = Inr [''k='' @ [dquote] @ ''a'' @ [dquote]]
   \<and> EQUALS_MATCHER_split inner_quoted_line = [''k'', inner_quoted_value]
   \<and> [''k='' @ [dquote] @ ''a'' @ [dquote]] ! 0 = ''k'' @ ''='' @ strip squote inner_quoted_value"
proof -
  let ?v = "dquote # ''a = b + 1'' @ [dquote]"
  have a: "split_grass_command mapcalc_line = Inr [''r.mapcalc'', ''expression=a = b + 1'']"
    by code_simp
  have b: "(1::nat) < length [''r.mapcalc'', ''expression=a = b + 1'']"
    by simp
  have c: "SPACE_MATCHER_split mapcalc_line ! 1 = mapcalc_token"
    by code_simp
  have d: "has_equals_and_quote mapcalc_token"
    by code_simp
  have e: "EQUALS_MATCHER_split mapcalc_token = [''expression'', ?v]"
    by code_simp
  have f: "hd ?v = dquote" "last ?v = dquote" "is_quote dquote"
    by (simp_all add: is_quote_def)
  have s: "strip dquote ?v = ''a = b + 1''"
    by code_simp
  have g: "dquote = dquote \<longrightarrow>
      strip dquote ?v = [] \<or> (hd (strip dquote ?v) \<noteq> squote \<and> last (strip dquote ?v) \<noteq> squote)"
    unfolding s by (simp add: squote_def)
  have i: "?v = dquote # ''a = b + 1'' @ [dquote]
      \<and> (''a = b + 1'' = [] \<or> (hd ''a = b + 1'' \<noteq> dquote \<and> last ''a = b + 1'' \<noteq> dquote))"
    by (simp add: dquote_def)
  have 1: "[''r.mapcalc'', ''expression=a = b + 1''] ! 1 = ''expression'' @ ''='' @ ''a = b + 1''"
    using strip_quoted_value [OF a b c d e f g] i by blast
  have a': "split_grass_command inner_quoted_line = Inr [''k='' @ [dquote] @ ''a'' @ [dquote]]"
    by code_simp
  have b': "(0::nat) < length [''k='' @ [dquote] @ ''a'' @ [dquote]]"
    by simp
  have c': "SPACE_MATCHER_split inner_quoted_line ! 0 = inner_quoted_line"
    by code_simp
  have d': "has_equals_and_quote inner_quoted_line"
    by code_simp
  have e': "EQUALS_MATCHER_split inner_quoted_line = [''k'', inner_quoted_value]"
    by code_simp
  have f': "hd inner_quoted_value = squote" "last inner_quoted_value = squote" "is_quote squote"
    by (simp_all add: is_quote_def inner_quoted_value_def)
  have g': "squote = dquote \<longrightarrow>
      strip squote inner_quoted_value = []
      \<or> (hd (strip squote inner_quoted_value) \<noteq> squote
          \<and> last (strip squote inner_quoted_value) \<noteq> squote)"
    by (simp add: squote_def dquote_def)
  have 2: "[''k='' @ [dquote] @ ''a'' @ [dquote]] ! 0 = ''k'' @ ''='' @ strip squote inner_quoted_value"
    using strip_quoted_value [OF a' b' c' d' e' f' g'] by blast
  show ?thesis using a e 1 a' e' 2 by blast
qed

section \<open>Properties of the compiler and of the chain builder\<close>

text \<open>Evaluating the scripted collaborators.\<close>

lemmas stub_defs = snapshot_def stub_env_def ok_response_def stub_loads_def known_texts_def
  status_text_def status_object_def jstr_def scripted_def

lemma pchain_append_falsy: "\<not> truthy p \<Longrightarrow> pchain_append ch p = ch"
  by (simp add: pchain_append_def)

lemma foldl_pchain_append:
  "\<forall>p\<in>set ops. truthy p \<Longrightarrow> foldl pchain_append ch ops = ch\<lparr>oplist := oplist ch @ ops\<rparr>"
  by (induction ops arbitrary: ch) (auto simp: pchain_append_def)

lemma build_chain_all:
  "list_all2 (\<lambda>c p. create_actinia_process E c = Inr p \<and> truthy p) commands ops \<Longrightarrow>
   build_chain E ch commands = (ch\<lparr>oplist := oplist ch @ ops\<rparr>, None)"
proof (induction commands ops arbitrary: ch rule: list_all2_induct)
  case Nil
  show ?case by simp
next
  case (Cons c cs p ps)
  then show ?case by (simp add: pchain_append_def)
qed

text \<open>
  C6: appending \<open>N\<close> non-empty operation descriptions in order to the fresh
  chain gives a chain whose list has length \<open>N\<close> and holds them in that order,
  also when they are compiled from \<open>N\<close> commands by the loop of
  \<^verbatim>\<open>send_poll_commands\<close>; an empty command compiles to \<open>None\<close>, and appending
  \<open>None\<close> leaves the chain as it is.
\<close>

theorem chain_keeps_order:
  "((\<forall>p\<in>set ops. truthy p) \<longrightarrow>
      oplist (foldl pchain_append PCHAIN ops) = ops
      \<and> length (oplist (foldl pchain_append PCHAIN ops)) = length ops)
   \<and> (list_all2 (\<lambda>c p. create_actinia_process E c = Inr p \<and> truthy p) commands ops \<longrightarrow>
        build_chain E PCHAIN commands = (PCHAIN\<lparr>oplist := ops\<rparr>, None))
   \<and> create_actinia_process E [] = Inr PNone
   \<and> pchain_append ch PNone = ch
   \<and> build_chain E ch ([] # commands) = build_chain E ch commands"
proof (intro conjI impI)
  assume a: "\<forall>p\<in>set ops. truthy p"
  show "oplist (foldl pchain_append PCHAIN ops) = ops"
    using foldl_pchain_append [OF a, of PCHAIN] by (simp add: PCHAIN_def)
  then show "length (oplist (foldl pchain_append PCHAIN ops)) = length ops" by simp
next
  assume "list_all2 (\<lambda>c p. create_actinia_process E c = Inr p \<and> truthy p) commands ops"
  from build_chain_all [OF this, of PCHAIN]
  show "build_chain E PCHAIN commands = (PCHAIN\<lparr>oplist := ops\<rparr>, None)"
    by (simp add: PCHAIN_def)
next
  show "create_actinia_process E [] = Inr PNone" by (simp add: create_actinia_process_def)
next
  show "pchain_append ch PNone = ch" by (simp add: pchain_append_def)
next
  show "build_chain E ch ([] # commands) = build_chain E ch commands"
    by (simp add: create_actinia_process_def pchain_append_def)
qed

theorem chain_keeps_order_witness:
  "oplist (foldl pchain_append PCHAIN [PDict [(''module'', PStr ''g.region'')], PDict [(''module'', PStr ''r.info'')]])
     = [PDict [(''module'', PStr ''g.region'')], PDict [(''module'', PStr ''r.info'')]]
   \<and> build_chain (stub_env (ok_response []) []) PCHAIN [[''g.region'', ''-p''], [''r.info'', ''elevation'']]
     = (PCHAIN\<lparr>oplist := [PDict [(''module'', PStr ''g.region'')], PDict [(''module'', PStr ''r.info'')]]\<rparr>,
        None)"
proof -
  let ?E = "stub_env (ok_response []) []"
  let ?a = "PDict [(''module'', PStr ''g.region'')]"
  let ?b = "PDict [(''module'', PStr ''r.info'')]"
  have t: "\<forall>p\<in>set [?a, ?b]. truthy p" by simp
  have ca: "create_actinia_process ?E [''g.region'', ''-p''] = Inr ?a"
    by (simp add: create_actinia_process_def stub_env_def stub_popen_def stub_loads_def
        known_texts_def jstr_def status_text_def)
  have cb: "create_actinia_process ?E [''r.info'', ''elevation''] = Inr ?b"
    by (simp add: create_actinia_process_def stub_env_def stub_popen_def stub_loads_def
        known_texts_def jstr_def status_text_def)
  have l: "list_all2 (\<lambda>c p. create_actinia_process ?E c = Inr p \<and> truthy p)
             [[''g.region'', ''-p''], [''r.info'', ''elevation'']] [?a, ?b]"
    using ca cb by simp
  show ?thesis
    using chain_keeps_order [of "[?a, ?b]" ?E "[[''g.region'', ''-p''], [''r.info'', ''elevation'']]"] t l
    by blast
qed

text \<open>
  C7: \<^verbatim>\<open>create_actinia_process\<close> returns \<open>None\<close>, and raises nothing, for the
  empty token sequence; it raises an exception for every token sequence that
  holds \<^verbatim>\<open>--help\<close>; and when the executable exits with a code other than 0 it
  raises an exception whose message holds the captured standard output and the
  captured standard error.
\<close>

theorem create_actinia_process_outcomes:
  "create_actinia_process E [] = Inr PNone
   \<and> (''--help'' \<in> set command \<longrightarrow>
        create_actinia_process E command
          = Inl (PyException (''--help is not allowed inside grass_command: '' @ str_list E command)))
   \<and> (command \<noteq> [] \<and> ''--help'' \<notin> set command
        \<and> popen E (if ''--json'' \<notin> set command then command @ [''--json''] else command)
            = Inr (returncode, out, err)
        \<and> returncode \<noteq> 0 \<longrightarrow>
        (\<exists>msg. create_actinia_process E command = Inl (PyException msg)
           \<and> sublist out msg \<and> sublist err msg))"
proof (intro conjI impI)
  show "create_actinia_process E [] = Inr PNone" by (simp add: create_actinia_process_def)
next
  assume "''--help'' \<in> set command"
  then have "command \<noteq> []" by auto
  then show "create_actinia_process E command
          = Inl (PyException (''--help is not allowed inside grass_command: '' @ str_list E command))"
    using \<open>''--help'' \<in> set command\<close> by (simp add: create_actinia_process_def)
next
  let ?c = "if ''--json'' \<notin> set command then command @ [''--json''] else command"
  let ?msg = "''Error while executing GRASS command: '' @ str_list E ?c
                        @ ''. '' @ [newline, newline] @ out @ [newline] @ err @ [newline]"
  assume a: "command \<noteq> [] \<and> ''--help'' \<notin> set command
        \<and> popen E ?c = Inr (returncode, out, err) \<and> returncode \<noteq> 0"
  then have r: "create_actinia_process E command = Inl (PyException ?msg)"
    by (simp add: create_actinia_process_def Let_def)
  have "?msg = (''Error while executing GRASS command: '' @ str_list E ?c
                        @ ''. '' @ [newline, newline]) @ out @ ([newline] @ err @ [newline])"
    by simp
  then have o: "sublist out ?msg" by (metis sublist_appendI)
  have "?msg = (''Error while executing GRASS command: '' @ str_list E ?c
                        @ ''. '' @ [newline, newline] @ out @ [newline]) @ err @ [newline]"
    by simp
  then have e: "sublist err ?msg" by (metis sublist_appendI)
  show "\<exists>msg. create_actinia_process E command = Inl (PyException msg)
           \<and> sublist out msg \<and> sublist err msg"
    using r o e by blast
qed

theorem create_actinia_process_outcomes_witness:
  "create_actinia_process (stub_env (ok_response []) []) [''g.region'', ''--help'']
     = Inl (PyException (''--help is not allowed inside grass_command: '' @ ''g.region--help''))
   \<and> (\<exists>msg. create_actinia_process (stub_env (ok_response []) []) [''v.what'', ''map=roads'']
         = Inl (PyException msg)
         \<and> sublist ''usage'' msg \<and> sublist ''ERROR: unknown module'' msg)"
proof -
  let ?E = "stub_env (ok_response []) []"
  have h: "''--help'' \<in> set [''g.region'', ''--help'']" by simp
  have s: "str_list ?E [''g.region'', ''--help''] = ''g.region--help''" by (simp add: stub_env_def)
  have n: "[''v.what'', ''map=roads''] \<noteq> [] \<and> ''--help'' \<notin> set [''v.what'', ''map=roads'']
      \<and> popen ?E (if ''--json'' \<notin> set [''v.what'', ''map=roads'']
                    then [''v.what'', ''map=roads''] @ [''--json''] else [''v.what'', ''map=roads''])
          = Inr (1, ''usage'', ''ERROR: unknown module'')
      \<and> (1::int) \<noteq> 0"
    by (simp add: stub_env_def stub_popen_def)
  have a: "create_actinia_process ?E [''g.region'', ''--help'']
     = Inl (PyException (''--help is not allowed inside grass_command: '' @ ''g.region--help''))"
    using create_actinia_process_outcomes [of ?E "[''g.region'', ''--help'']"] h s by simp
  have b: "\<exists>msg. create_actinia_process ?E [''v.what'', ''map=roads''] = Inl (PyException msg)
         \<and> sublist ''usage'' msg \<and> sublist ''ERROR: unknown module'' msg"
    using create_actinia_process_outcomes [of ?E "[''v.what'', ''map=roads'']" 1 "''usage''"
        "''ERROR: unknown module''"] n by blast
  show ?thesis using a b by blast
qed

section \<open>Properties of the submission\<close>

lemma submit_rejected:
  assumes "http_post E (submit_url G mapset) (pchain_json ch) = Inr req"
    and "status_code req \<notin> {200, 201}"
  shows "snd (submit E G ch mapset)
     = Inl (Fatal (post_error_prefix (submit_url G mapset) @ post_error_msg E (resp_text req)))"
  using assms by (simp add: submit_def Let_def)

lemma post_error_msg_unparsed: "loads E body = None \<Longrightarrow> post_error_msg E body = body"
  by (simp add: post_error_msg_def)

lemma map_of_in_fst: "map_of kvs k = Some v \<Longrightarrow> k \<in> fst ` set kvs"
  by (meson domI domIff map_of_eq_None_iff)

lemma post_error_msg_message:
  "loads E body = Some (PDict kvs) \<Longrightarrow> map_of kvs ''message'' = Some m \<Longrightarrow>
   post_error_msg E body = '': '' @ format E m"
  using map_of_in_fst [of kvs "''message''" m] by (simp add: post_error_msg_def)

lemma post_error_msg_no_message:
  "loads E body = Some (PDict kvs) \<Longrightarrow> map_of kvs ''message'' = None \<Longrightarrow>
   post_error_msg E body = []"
  by (simp add: post_error_msg_def map_of_eq_None_iff)

text \<open>
  C2, as the specification states it, fails: the body \<^verbatim>\<open>{"code": 400}\<close> of an
  answer with status 400 parses and has no \<open>message\<close>, and the fatal error is
  the fixed text with the URL alone; the body text is no part of it.
\<close>

theorem submit_without_message_has_no_body:
  "status_code (rejected no_message_body) \<notin> {200, 201}
   \<and> stub_loads no_message_body = Some (PDict [(''code'', PInt 400)])
   \<and> snd (submit (stub_env (rejected no_message_body) []) defaults PCHAIN None)
       = Inl (Fatal (post_error_prefix export_url))
   \<and> \<not> sublist no_message_body (post_error_prefix export_url)"
  by code_simp

text \<open>
  C2, amended: for a submission answered with a status code outside 200 and
  201 the client ends fatally, and the text of the error is the fixed text
  with the URL followed by: the body text when the body does not parse; a
  colon, a space and the \<open>message\<close> field when the body parses to an object
  with that field; and nothing when the body parses to an object without it.
\<close>

theorem submit_rejected_message:
  assumes "http_post E (submit_url G mapset) (pchain_json ch) = Inr req"
    and "status_code req \<notin> {200, 201}"
  shows "snd (submit E G ch mapset)
       = Inl (Fatal (post_error_prefix (submit_url G mapset) @ post_error_msg E (resp_text req)))
     \<and> (loads E (resp_text req) = None \<longrightarrow>
          post_error_msg E (resp_text req) = resp_text req
          \<and> sublist (resp_text req)
               (post_error_prefix (submit_url G mapset) @ post_error_msg E (resp_text req)))
     \<and> (\<forall>kvs m. loads E (resp_text req) = Some (PDict kvs) \<and> map_of kvs ''message'' = Some m
          \<longrightarrow> post_error_msg E (resp_text req) = '': '' @ format E m
              \<and> sublist (format E m)
                   (post_error_prefix (submit_url G mapset) @ post_error_msg E (resp_text req)))
     \<and> (\<forall>kvs. loads E (resp_text req) = Some (PDict kvs) \<and> map_of kvs ''message'' = None
          \<longrightarrow> post_error_msg E (resp_text req) = [])"
proof (intro conjI allI impI)
  show "snd (submit E G ch mapset)
       = Inl (Fatal (post_error_prefix (submit_url G mapset) @ post_error_msg E (resp_text req)))"
    using submit_rejected [OF assms] .
next
  assume a: "loads E (resp_text req) = None"
  then show e: "post_error_msg E (resp_text req) = resp_text req"
    by (rule post_error_msg_unparsed)
  show "sublist (resp_text req)
          (post_error_prefix (submit_url G mapset) @ post_error_msg E (resp_text req))"
    unfolding e by (rule sublist_append_leftI)
next
  fix kvs m
  assume a: "loads E (resp_text req) = Some (PDict kvs) \<and> map_of kvs ''message'' = Some m"
  then show e: "post_error_msg E (resp_text req) = '': '' @ format E m"
    using post_error_msg_message [of E "resp_text req" kvs m] by simp
  have "post_error_prefix (submit_url G mapset) @ '': '' @ format E m
      = (post_error_prefix (submit_url G mapset) @ '': '') @ format E m" by simp
  then show "sublist (format E m)
          (post_error_prefix (submit_url G mapset) @ post_error_msg E (resp_text req))"
    unfolding e by (metis sublist_append_leftI)
next
  fix kvs
  assume "loads E (resp_text req) = Some (PDict kvs) \<and> map_of kvs ''message'' = None"
  then show "post_error_msg E (resp_text req) = []"
    using post_error_msg_no_message [of E "resp_text req" kvs] by simp
qed

theorem submit_rejected_message_witness:
  "snd (submit (stub_env (rejected message_body) []) defaults PCHAIN None)
     = Inl (Fatal (post_error_prefix export_url @ '': bad request''))
   \<and> sublist ''bad request'' (post_error_prefix export_url @ '': bad request'')
   \<and> snd (submit (stub_env (rejected unparsed_body) []) defaults PCHAIN None)
     = Inl (Fatal (post_error_prefix export_url @ unparsed_body))
   \<and> sublist unparsed_body (post_error_prefix export_url @ unparsed_body)"
proof -
  let ?M = "stub_env (rejected message_body) []"
  let ?U = "stub_env (rejected unparsed_body) []"
  have u: "submit_url defaults None = export_url"
    by (simp add: submit_url_def defaults_def export_url_def)
  have pm: "http_post ?M (submit_url defaults None) (pchain_json PCHAIN) = Inr (rejected message_body)"
    and pu: "http_post ?U (submit_url defaults None) (pchain_json PCHAIN) = Inr (rejected unparsed_body)"
    by (simp_all add: stub_env_def)
  have c: "status_code (rejected b) \<notin> {200, 201}" for b by (simp add: rejected_def)
  have lm: "loads ?M (resp_text (rejected message_body)) = Some (PDict [(''message'', PStr ''bad request'')])"
    by (simp add: stub_env_def rejected_def message_body_def stub_loads_def known_texts_def
        status_text_def jstr_def)
  have mm: "map_of [(''message'', PStr ''bad request'')] ''message'' = Some (PStr ''bad request'')"
    by simp
  have lu: "loads ?U (resp_text (rejected unparsed_body)) = None"
    by (simp add: stub_env_def rejected_def unparsed_body_def stub_loads_def known_texts_def
        status_text_def jstr_def)
  have fm: "format ?M (PStr ''bad request'') = ''bad request''" by simp
  have t1: "snd (submit ?M defaults PCHAIN None)
      = Inl (Fatal (post_error_prefix export_url @ '': bad request''))
    \<and> sublist ''bad request'' (post_error_prefix export_url @ '': bad request'')"
    using submit_rejected_message [OF pm c] lm mm u fm by fastforce
  have t2: "snd (submit ?U defaults PCHAIN None)
      = Inl (Fatal (post_error_prefix export_url @ unparsed_body))
    \<and> sublist unparsed_body (post_error_prefix export_url @ unparsed_body)"
    using submit_rejected_message [OF pu c] lu u by (simp add: rejected_def)
  show ?thesis using t1 t2 by blast
qed

section \<open>Properties of the polling loop\<close>

lemma poll_once_continue:
  assumes "http_get E u n = Inr r" and "snapshot E r data st m" and "\<not> terminal st"
  shows "poll_once E u n = (poll_round u st m @ [Sleep 1], Continue)"
  using assms by (simp add: poll_once_def snapshot_def poll_round_def)

lemma poll_once_break:
  assumes "http_get E u n = Inr r" and "snapshot E r data st m" and "terminal st"
  shows "poll_once E u n = (poll_round u st m, Break (r, data, st))"
  using assms by (simp add: poll_once_def snapshot_def poll_round_def)

lemma poll_once_polls: "polls (fst (poll_once E u n)) = 1"
  by (simp add: poll_once_def polls_def split: sum.split option.split)

lemma poll_once_Continue_iff: "snd (poll_once E u n) = Continue \<longleftrightarrow> keeps_polling E u n"
proof
  assume c: "snd (poll_once E u n) = Continue"
  then obtain r where r: "http_get E u n = Inr r"
    by (cases "http_get E u n") (simp_all add: poll_once_def)
  with c obtain data where d: "loads E (resp_text r) = Some data"
    by (cases "loads E (resp_text r)") (simp_all add: poll_once_def)
  with c r obtain st where s: "getitem data (PStr ''status'') = Inr st"
    by (cases "getitem data (PStr ''status'')") (simp_all add: poll_once_def)
  with c r d obtain m where m: "getitem data (PStr ''message'') = Inr m"
    by (cases "getitem data (PStr ''message'')") (simp_all add: poll_once_def)
  have "\<not> terminal st" using c r d s m by (auto simp: poll_once_def split: if_splits)
  then show "keeps_polling E u n" using r d s m unfolding keeps_polling_def snapshot_def by blast
next
  assume "keeps_polling E u n"
  then show "snd (poll_once E u n) = Continue"
    using poll_once_continue by (fastforce simp: keeps_polling_def)
qed


lemma poll_once_Break_iff:
  "snd (poll_once E u n) = Break (r, data, st) \<longleftrightarrow>
   http_get E u n = Inr r \<and> (\<exists>m. snapshot E r data st m) \<and> terminal st"
proof
  assume c: "snd (poll_once E u n) = Break (r, data, st)"
  then obtain r' where r: "http_get E u n = Inr r'"
    by (cases "http_get E u n") (simp_all add: poll_once_def)
  with c obtain data' where d: "loads E (resp_text r') = Some data'"
    by (cases "loads E (resp_text r')") (simp_all add: poll_once_def)
  with c r obtain st' where s: "getitem data' (PStr ''status'') = Inr st'"
    by (cases "getitem data' (PStr ''status'')") (simp_all add: poll_once_def)
  with c r d obtain m where m: "getitem data' (PStr ''message'') = Inr m"
    by (cases "getitem data' (PStr ''message'')") (simp_all add: poll_once_def)
  have "terminal st' \<and> r' = r \<and> data' = data \<and> st' = st"
    using c r d s m by (auto simp: poll_once_def split: if_splits)
  then show "http_get E u n = Inr r \<and> (\<exists>m. snapshot E r data st m) \<and> terminal st"
    using r d s m unfolding snapshot_def by blast
next
  assume "http_get E u n = Inr r \<and> (\<exists>m. snapshot E r data st m) \<and> terminal st"
  then show "snd (poll_once E u n) = Break (r, data, st)"
    using poll_once_break by fastforce
qed


lemma poll_loop_continue:
  assumes "snd (poll_once E u n) = Continue"
  shows "poll_loop E u n tr = poll_loop E u (Suc n) (tr @ fst (poll_once E u n))"
  using assms by (subst poll_loop.simps) (simp add: split_beta)

lemma poll_loop_break:
  assumes "snd (poll_once E u n) = Break x"
  shows "poll_loop E u n tr = Some (tr @ fst (poll_once E u n), Inr x)"
  using assms by (subst poll_loop.simps) (simp add: split_beta)

lemma poll_loop_raise:
  assumes "snd (poll_once E u n) = Raise f"
  shows "poll_loop E u n tr = Some (tr @ fst (poll_once E u n), Inl f)"
  using assms by (subst poll_loop.simps) (simp add: split_beta)

lemma polls_append: "polls (xs @ ys) = polls xs + polls ys"
  by (simp add: polls_def)

lemma poll_loop_reaches:
  assumes "\<forall>i<k. keeps_polling E u (n + i)"
    and "http_get E u (n + k) = Inr r" and "snapshot E r data st m" and "terminal st"
  shows "\<exists>tr'. poll_loop E u n tr = Some (tr', Inr (r, data, st)) \<and> polls tr' = polls tr + k + 1"
  using assms
proof (induction k arbitrary: n tr)
  case 0
  have b: "snd (poll_once E u n) = Break (r, data, st)"
    using 0 poll_once_Break_iff [of E u n r data st] by auto
  then have "poll_loop E u n tr = Some (tr @ fst (poll_once E u n), Inr (r, data, st))"
    using poll_loop_break [of E u n "(r, data, st)" tr] by simp
  then show ?case by (simp add: polls_append poll_once_polls)
next
  case (Suc k)
  from Suc.prems(1) have "keeps_polling E u (n + 0)" by blast
  then have c: "snd (poll_once E u n) = Continue" by (simp add: poll_once_Continue_iff)
  have a: "\<forall>i<k. keeps_polling E u (Suc n + i)"
    using Suc.prems(1) by (metis Suc_less_eq add_Suc_shift)
  have b: "http_get E u (Suc n + k) = Inr r" using Suc.prems(2) by simp
  from Suc.IH [OF a b Suc.prems(3,4), of "tr @ fst (poll_once E u n)"]
  obtain tr' where "poll_loop E u (Suc n) (tr @ fst (poll_once E u n)) = Some (tr', Inr (r, data, st))"
    and "polls tr' = polls (tr @ fst (poll_once E u n)) + k + 1" by blast
  then show ?case using poll_loop_continue [OF c, of tr] by (simp add: polls_append poll_once_polls)
qed

lemma keeps_polling_shift:
  assumes "keeps_polling E u n" and "\<forall>i<k. keeps_polling E u (Suc n + i)"
  shows "\<forall>i<Suc k. keeps_polling E u (n + i)"
proof (intro allI impI)
  fix i assume l: "i < Suc k"
  show "keeps_polling E u (n + i)"
  proof (cases i)
    case 0
    then show ?thesis using assms(1) by simp
  next
    case (Suc j)
    then have "j < k" using l by simp
    then have "keeps_polling E u (Suc n + j)" using assms(2) by blast
    then show ?thesis using Suc by simp
  qed
qed

lemma poll_loop_stops:
  assumes "poll_loop E u n tr = Some y"
  shows "\<exists>k. (\<forall>i<k. keeps_polling E u (n + i)) \<and> \<not> keeps_polling E u (n + k)
     \<and> polls (fst y) = polls tr + k + 1
     \<and> (\<forall>x. snd y = Inr x \<longleftrightarrow> snd (poll_once E u (n + k)) = Break x)
     \<and> (\<forall>f. snd y = Inl f \<longleftrightarrow> snd (poll_once E u (n + k)) = Raise f)"
proof (rule poll_loop.raw_induct [where P = "\<lambda>E u n tr y.
     \<exists>k. (\<forall>i<k. keeps_polling E u (n + i)) \<and> \<not> keeps_polling E u (n + k)
     \<and> polls (fst y) = polls tr + k + 1
     \<and> (\<forall>x. snd y = Inr x \<longleftrightarrow> snd (poll_once E u (n + k)) = Break x)
     \<and> (\<forall>f. snd y = Inl f \<longleftrightarrow> snd (poll_once E u (n + k)) = Raise f)",
     OF _ assms])
  fix loop :: "env \<Rightarrow> pyval \<Rightarrow> nat \<Rightarrow> event list
      \<Rightarrow> (event list \<times> (fault + response \<times> pyval \<times> pyval)) option"
  fix E u n tr y
  assume IH: "\<And>E u n tr y. loop E u n tr = Some y \<Longrightarrow>
     \<exists>k. (\<forall>i<k. keeps_polling E u (n + i)) \<and> \<not> keeps_polling E u (n + k)
     \<and> polls (fst y) = polls tr + k + 1
     \<and> (\<forall>x. snd y = Inr x \<longleftrightarrow> snd (poll_once E u (n + k)) = Break x)
     \<and> (\<forall>f. snd y = Inl f \<longleftrightarrow> snd (poll_once E u (n + k)) = Raise f)"
  assume body: "(case poll_once E u n of
        (evs, Break x) \<Rightarrow> Some (tr @ evs, Inr x)
      | (evs, Raise f) \<Rightarrow> Some (tr @ evs, Inl f)
      | (evs, Continue) \<Rightarrow> loop E u (Suc n) (tr @ evs)) = Some y"
  obtain evs res where p: "poll_once E u n = (evs, res)" by (cases "poll_once E u n")
  have pe: "polls evs = 1" using poll_once_polls [of E u n] p by simp
  show "\<exists>k. (\<forall>i<k. keeps_polling E u (n + i)) \<and> \<not> keeps_polling E u (n + k)
     \<and> polls (fst y) = polls tr + k + 1
     \<and> (\<forall>x. snd y = Inr x \<longleftrightarrow> snd (poll_once E u (n + k)) = Break x)
     \<and> (\<forall>f. snd y = Inl f \<longleftrightarrow> snd (poll_once E u (n + k)) = Raise f)"
  proof (cases "res = Continue")
    case True
    have kp: "keeps_polling E u n" using p True poll_once_Continue_iff [of E u n] by simp
    have "loop E u (Suc n) (tr @ evs) = Some y"
      using body unfolding p True by simp
    from IH [OF this] obtain k where k1: "\<forall>i<k. keeps_polling E u (Suc n + i)"
      and k2: "\<not> keeps_polling E u (Suc n + k)"
      and k3: "polls (fst y) = polls (tr @ evs) + k + 1"
      and k4: "\<forall>x. snd y = Inr x \<longleftrightarrow> snd (poll_once E u (Suc n + k)) = Break x"
      and k5: "\<forall>f. snd y = Inl f \<longleftrightarrow> snd (poll_once E u (Suc n + k)) = Raise f"
      by blast
    have a: "\<forall>i<Suc k. keeps_polling E u (n + i)"
      using keeps_polling_shift [OF kp k1] .
    have b: "\<not> keeps_polling E u (n + Suc k)" using k2 by simp
    have c: "polls (fst y) = polls tr + Suc k + 1" using k3 pe by (simp add: polls_append)
    have d: "\<forall>x. snd y = Inr x \<longleftrightarrow> snd (poll_once E u (n + Suc k)) = Break x"
      using k4 by simp
    have e: "\<forall>f. snd y = Inl f \<longleftrightarrow> snd (poll_once E u (n + Suc k)) = Raise f"
      using k5 by simp
    show ?thesis by (intro exI [of _ "Suc k"] conjI a b c d e)
  next
    case False
    have kp: "\<not> keeps_polling E u (n + 0)"
      using p False poll_once_Continue_iff [of E u n] by simp
    have y: "fst y = tr @ evs \<and> (\<forall>x. snd y = Inr x \<longleftrightarrow> res = Break x)
        \<and> (\<forall>f. snd y = Inl f \<longleftrightarrow> res = Raise f)"
      using body False unfolding p by (cases res) auto
    have c: "polls (fst y) = polls tr + 0 + 1" using y pe by (simp add: polls_append)
    have d: "\<forall>x. snd y = Inr x \<longleftrightarrow> snd (poll_once E u (n + 0)) = Break x"
      using y p by simp
    have e: "\<forall>f. snd y = Inl f \<longleftrightarrow> snd (poll_once E u (n + 0)) = Raise f"
      using y p by simp
    have a: "\<forall>i<(0::nat). keeps_polling E u (n + i)" by simp
    show ?thesis by (intro exI [of _ "0::nat"] conjI a kp c d e)
  qed
qed

lemma poll_loop_forever:
  assumes "\<forall>i. keeps_polling E u (n + i)"
  shows "poll_loop E u n tr = None"
proof (cases "poll_loop E u n tr")
  case None
  then show ?thesis .
next
  case (Some y)
  from poll_loop_stops [OF this] assms show ?thesis by blast
qed

text \<open>
  C1: the loop leaves by \<^verbatim>\<open>break\<close> exactly at the first answer whose status
  is \<open>finished\<close>, \<open>error\<close> or \<open>terminated\<close>, having sent one request for each
  answer before it and one for that answer: when \<open>k\<close> answers keep it polling
  and the next is a snapshot with a terminal status, it returns that snapshot
  after \<open>k + 1\<close> requests and raises nothing; when it returns a snapshot, the
  status of that is terminal and it is the first answer that did not keep the
  loop polling; and when every answer keeps it polling it never returns.  For
  the answers running, running, finished that is 3 requests and the finished
  snapshot, for running, error it is 2 requests and the error snapshot.
\<close>

theorem poll_loop_stops_at_terminal:
  "((\<forall>i<k. keeps_polling E u i)
      \<and> http_get E u k = Inr r \<and> snapshot E r data st m \<and> terminal st \<longrightarrow>
      (\<exists>tr'. poll_loop E u 0 tr = Some (tr', Inr (r, data, st)) \<and> polls tr' = polls tr + k + 1))
   \<and> (poll_loop E u 0 tr = Some (tr', Inr (r, data, st)) \<longrightarrow>
        terminal st
        \<and> (\<exists>j m. (\<forall>i<j. keeps_polling E u i) \<and> http_get E u j = Inr r
              \<and> snapshot E r data st m \<and> polls tr' = polls tr + j + 1))
   \<and> ((\<forall>i. keeps_polling E u i) \<longrightarrow> poll_loop E u 0 tr = None)"
proof (intro conjI impI)
  assume "(\<forall>i<k. keeps_polling E u i)
      \<and> http_get E u k = Inr r \<and> snapshot E r data st m \<and> terminal st"
  then show "\<exists>tr'. poll_loop E u 0 tr = Some (tr', Inr (r, data, st)) \<and> polls tr' = polls tr + k + 1"
    using poll_loop_reaches [of k E u 0 r data st m tr] by simp
next
  assume a: "poll_loop E u 0 tr = Some (tr', Inr (r, data, st))"
  from poll_loop_stops [OF a] obtain j where j1: "\<forall>i<j. keeps_polling E u (0 + i)"
    and j2: "polls (fst (tr', Inr (r, data, st) :: fault + response \<times> pyval \<times> pyval)) = polls tr + j + 1"
    and j3: "\<forall>x. snd (tr', Inr (r, data, st) :: fault + response \<times> pyval \<times> pyval) = Inr x
        \<longleftrightarrow> snd (poll_once E u (0 + j)) = Break x"
    by blast
  have b: "snd (poll_once E u j) = Break (r, data, st)"
    using j3 [rule_format, of "(r, data, st)"] by simp
  then have t: "http_get E u j = Inr r \<and> (\<exists>m. snapshot E r data st m) \<and> terminal st"
    using poll_once_Break_iff [of E u j r data st] by simp
  then show "terminal st" by simp
  from t obtain m where "snapshot E r data st m" by blast
  then show "\<exists>j m. (\<forall>i<j. keeps_polling E u i) \<and> http_get E u j = Inr r
              \<and> snapshot E r data st m \<and> polls tr' = polls tr + j + 1"
    using j1 j2 t by (intro exI [of _ j] exI [of _ m]) simp
next
  assume "\<forall>i. keeps_polling E u i"
  then show "poll_loop E u 0 tr = None"
    using poll_loop_forever [of E u 0 tr] by simp
qed

theorem poll_loop_stops_at_terminal_witness:
  "(\<exists>tr'. poll_loop (stub_env (ok_response []) script_finished) status_url 0 []
       = Some (tr', Inr (ok_response (status_text ''finished''), status_object ''finished'',
                         PStr ''finished''))
       \<and> polls tr' = 3)
   \<and> (\<exists>tr'. poll_loop (stub_env (ok_response []) script_error) status_url 0 []
       = Some (tr', Inr (ok_response (status_text ''error''), status_object ''error'',
                         PStr ''error''))
       \<and> polls tr' = 2)"
proof -
  let ?F = "stub_env (ok_response []) script_finished"
  let ?R = "stub_env (ok_response []) script_error"
  have run: "snapshot E (ok_response (status_text ''running'')) (status_object ''running'')
               (PStr ''running'') (PStr ''ok'')"
    if "loads E = stub_loads" for E
    using that by (simp add: stub_defs)
  have nt: "\<not> terminal (PStr ''running'')" by (simp add: terminal_def)
  have f0: "http_get ?F status_url 0 = Inr (ok_response (status_text ''running''))"
    and f1: "http_get ?F status_url 1 = Inr (ok_response (status_text ''running''))"
    and f2: "http_get ?F status_url 2 = Inr (ok_response (status_text ''finished''))"
    and r0: "http_get ?R status_url 0 = Inr (ok_response (status_text ''running''))"
    and r1: "http_get ?R status_url 1 = Inr (ok_response (status_text ''error''))"
    by (simp_all add: stub_env_def scripted_def script_finished_def script_error_def)
  have lf: "loads ?F = stub_loads" and lr: "loads ?R = stub_loads" by (simp_all add: stub_env_def)
  have kf: "\<forall>i<2. keeps_polling ?F status_url i"
  proof (intro allI impI)
    fix i :: nat assume "i < 2"
    then have "i = 0 \<or> i = 1" by auto
    then show "keeps_polling ?F status_url i"
      unfolding keeps_polling_def using f0 f1 run [OF lf] nt by blast
  qed
  have kr: "\<forall>i<1. keeps_polling ?R status_url i"
    unfolding keeps_polling_def using r0 run [OF lr] nt by auto
  have sf: "snapshot ?F (ok_response (status_text ''finished'')) (status_object ''finished'')
              (PStr ''finished'') (PStr ''ok'')"
    by (simp add: stub_defs)
  have sr: "snapshot ?R (ok_response (status_text ''error'')) (status_object ''error'')
              (PStr ''error'') (PStr ''ok'')"
    by (simp add: stub_defs)
  have t: "terminal (PStr ''finished'')" "terminal (PStr ''error'')" by (simp_all add: terminal_def)
  have p: "polls [] = 0" by (simp add: polls_def)
  from poll_loop_stops_at_terminal [of 2 ?F status_url "ok_response (status_text ''finished'')"
      "status_object ''finished''" "PStr ''finished''" "PStr ''ok''" "[]"] kf f2 sf t(1)
  obtain tr1 where a1: "poll_loop ?F status_url 0 [] = Some (tr1, Inr (ok_response (status_text ''finished''),
      status_object ''finished'', PStr ''finished''))" and "polls tr1 = polls [] + 2 + 1"
    by blast
  then have n1: "polls tr1 = 3" using p by simp
  from poll_loop_stops_at_terminal [of 1 ?R status_url "ok_response (status_text ''error'')"
      "status_object ''error''" "PStr ''error''" "PStr ''ok''" "[]"] kr r1 sr t(2)
  obtain tr2 where a2: "poll_loop ?R status_url 0 [] = Some (tr2, Inr (ok_response (status_text ''error''),
      status_object ''error'', PStr ''error''))" and "polls tr2 = polls [] + 1 + 1"
    by blast
  then have n2: "polls tr2 = 2" using p by simp
  show ?thesis using a1 n1 a2 n2 by blast
qed

section \<open>Properties of the reporter\<close>

lemmas step_defs = job_data_def loud_step_def quiet_step_def broken_step_def links_def
  step_log_def entry_prints_def step_prints_def

lemma seq_index_first:
  "seq_index errs 0 = (case errs of [] \<Rightarrow> Inl IndexError | x # xs \<Rightarrow> Inr x)"
  by (cases errs) (simp_all add: seq_index_def)

lemma walk_log_step:
  assumes "getitem entry (PStr ''stdout'') = Inr out"
    and "getitem entry (PStr ''stderr'') = Inr (PList errs)" and "errs \<noteq> []"
  shows "walk_log (entry # entries) tr = walk_log entries (tr @ step_prints out errs)"
proof -
  obtain x xs where e: "errs = x # xs" using assms(3) by (cases errs) auto
  show ?thesis using assms(1,2) e
    by (simp add: seq_index_first step_prints_def Let_def)
qed

lemma entry_prints_step:
  assumes "getitem entry (PStr ''stdout'') = Inr out"
    and "getitem entry (PStr ''stderr'') = Inr (PList errs)"
  shows "entry_prints entry = step_prints out errs"
  using assms by (simp add: entry_prints_def)

lemma walk_log_all:
  "\<forall>e\<in>set entries. step_log e \<Longrightarrow>
   walk_log entries tr = (tr @ concat (map entry_prints entries), None)"
proof (induction entries arbitrary: tr)
  case Nil
  show ?case by simp
next
  case (Cons e es)
  then obtain out errs where o: "getitem e (PStr ''stdout'') = Inr out"
    and s: "getitem e (PStr ''stderr'') = Inr (PList errs)" and n: "errs \<noteq> []"
    by (auto simp: step_log_def)
  have "walk_log (e # es) tr = walk_log es (tr @ step_prints out errs)"
    using walk_log_step [OF o s n] .
  also have "\<dots> = ((tr @ step_prints out errs) @ concat (map entry_prints es), None)"
    using Cons by simp
  finally show ?case using entry_prints_step [OF o s] by simp
qed

lemma walk_log_append:
  "walk_log pre tr = (tr', None) \<Longrightarrow> walk_log (pre @ post) tr = walk_log post tr'"
proof (induction pre arbitrary: tr)
  case Nil
  then show ?case by simp
next
  case (Cons e es)
  then show ?case by (auto simp: Let_def split: sum.splits)
qed

lemma walk_log_empty_stderr:
  assumes "getitem entry (PStr ''stdout'') = Inr out"
    and "getitem entry (PStr ''stderr'') = Inr (PList [])"
  shows "walk_log (entry # entries) tr
     = (tr @ (if truthy out then [Print [out]] else []), Some IndexError)"
  using assms by (simp add: seq_index_first Let_def)

lemma walk_log_ok_stderr:
  "walk_log entries tr = (tr', None) \<Longrightarrow> e \<in> set entries \<Longrightarrow>
   \<exists>err x. getitem e (PStr ''stderr'') = Inr err \<and> getitem err (PInt 0) = Inr x"
proof (induction entries arbitrary: tr)
  case Nil
  then show ?case by simp
next
  case (Cons a as)
  then show ?case by (auto simp: Let_def split: sum.splits)
qed

text \<open>
  C8, as the specification states it, fails: the last poll answer has status
  code 200 and the job is finished, the first step of its log has an empty
  \<open>stderr\<close> list, and the reporter ends with IndexError after the \<open>stdout\<close>
  of that step; it prints neither the second step nor \<open>urls\<close>.
\<close>

theorem report_stops_at_empty_stderr:
  "status_code (job_response 200 ''finished'' [broken_text, loud_text]) = 200
   \<and> getitem (job_data ''finished'' [broken_step, loud_step]) (PStr ''status'')
       = Inr (PStr ''finished'')
   \<and> getitem (job_data ''finished'' [broken_step, loud_step]) (PStr ''process_log'')
       = Inr (PList [broken_step, loud_step])
   \<and> report (job_response 200 ''finished'' [broken_text, loud_text])
         (job_data ''finished'' [broken_step, loud_step]) (PStr ''finished'') []
       = ([Print [PStr rule_line], Print [PStr ''done'']], Some IndexError)"
  by code_simp

text \<open>
  C8, amended: when the last poll answer has status code 200, the reporter
  prints the answer's text and stops if the final status is \<open>terminated\<close>;
  otherwise, when every step of \<open>process_log\<close> has a \<open>stdout\<close> and a \<open>stderr\<close>
  list with a first element, it goes through \<open>process_log\<close> in order, printing
  for each step its \<open>stdout\<close> when that is non-empty and its \<open>stderr\<close> when the
  first element of \<open>stderr\<close> is non-empty, and prints \<open>urls\<close> at the end.
\<close>

theorem report_terminal:
  assumes "status_code r = 200"
  shows "(final_status = PStr ''terminated'' \<longrightarrow>
            report r data final_status tr
              = (tr @ [Print [PStr rule_line], Print [PStr (resp_text r)]], None))
     \<and> (final_status \<noteq> PStr ''terminated''
          \<and> getitem data (PStr ''process_log'') = Inr (PList entries)
          \<and> (\<forall>e\<in>set entries. step_log e)
          \<and> getitem data (PStr ''urls'') = Inr urls \<longrightarrow>
            report r data final_status tr
              = (tr @ [Print [PStr rule_line]] @ concat (map entry_prints entries) @ [PPrint urls],
                 None))"
proof (intro conjI impI)
  assume "final_status = PStr ''terminated''"
  then show "report r data final_status tr
              = (tr @ [Print [PStr rule_line], Print [PStr (resp_text r)]], None)"
    using assms by (simp add: report_def Let_def)
next
  assume a: "final_status \<noteq> PStr ''terminated''
          \<and> getitem data (PStr ''process_log'') = Inr (PList entries)
          \<and> (\<forall>e\<in>set entries. step_log e)
          \<and> getitem data (PStr ''urls'') = Inr urls"
  then have w: "walk_log entries (tr @ [Print [PStr rule_line]])
      = ((tr @ [Print [PStr rule_line]]) @ concat (map entry_prints entries), None)"
    using walk_log_all by blast
  show "report r data final_status tr
              = (tr @ [Print [PStr rule_line]] @ concat (map entry_prints entries) @ [PPrint urls],
                 None)"
    using assms a w by (simp add: report_def Let_def)
qed

theorem report_terminal_witness:
  "report (job_response 200 ''terminated'' []) (job_data ''terminated'' []) (PStr ''terminated'') []
     = ([Print [PStr rule_line], Print [PStr (job_text ''terminated'' [])]], None)
   \<and> report (job_response 200 ''finished'' [loud_text, quiet_text])
        (job_data ''finished'' [loud_step, quiet_step]) (PStr ''finished'') []
     = ([Print [PStr rule_line], Print [PStr ''projection: 99''],
         PPrint (PList [PStr ''WARNING: no units'']), PPrint links], None)"
proof -
  have c: "status_code (job_response 200 st xs) = 200" for st xs
    by (simp add: job_response_def)
  have t: "report (job_response 200 ''terminated'' []) (job_data ''terminated'' [])
        (PStr ''terminated'') []
     = ([Print [PStr rule_line], Print [PStr (job_text ''terminated'' [])]], None)"
    using report_terminal [OF c [of "''terminated''" "[]"],
        where final_status = "PStr ''terminated''" and tr = "[]"
        and data = "job_data ''terminated'' []"]
    by (simp add: job_response_def)
  have h: "PStr ''finished'' \<noteq> PStr ''terminated''
      \<and> getitem (job_data ''finished'' [loud_step, quiet_step]) (PStr ''process_log'')
          = Inr (PList [loud_step, quiet_step])
      \<and> (\<forall>e\<in>set [loud_step, quiet_step]. step_log e)
      \<and> getitem (job_data ''finished'' [loud_step, quiet_step]) (PStr ''urls'') = Inr links"
    by (simp add: step_defs)
  have e: "concat (map entry_prints [loud_step, quiet_step])
      = [Print [PStr ''projection: 99''], PPrint (PList [PStr ''WARNING: no units''])]"
    by (simp add: step_defs)
  have f: "report (job_response 200 ''finished'' [loud_text, quiet_text])
        (job_data ''finished'' [loud_step, quiet_step]) (PStr ''finished'') []
     = ([Print [PStr rule_line], Print [PStr ''projection: 99''],
         PPrint (PList [PStr ''WARNING: no units'']), PPrint links], None)"
    using report_terminal [OF c [of "''finished''" "[loud_text, quiet_text]"],
        where final_status = "PStr ''finished''" and tr = "[]"
        and data = "job_data ''finished'' [loud_step, quiet_step]"
        and entries = "[loud_step, quiet_step]" and urls = links] h e
    by simp
  show ?thesis using t f by (rule conjI)
qed

text \<open>
  C9, as the specification states it, fails: the job ended with status
  \<open>error\<close>, the one step of its log has an empty \<open>stderr\<close> list, and the last
  poll answer has status code 400; the reporter prints the text of the answer
  and ends without a fault.
\<close>

theorem report_ignores_log_without_200:
  "status_code (job_response 400 ''error'' [broken_text]) \<noteq> 200
   \<and> getitem (job_data ''error'' [broken_step]) (PStr ''status'') = Inr (PStr ''error'')
   \<and> getitem (job_data ''error'' [broken_step]) (PStr ''process_log'') = Inr (PList [broken_step])
   \<and> getitem broken_step (PStr ''stderr'') = Inr (PList [])
   \<and> report (job_response 400 ''error'' [broken_text]) (job_data ''error'' [broken_step])
         (PStr ''error'') []
       = ([Print [PStr rule_line], Print [PStr (job_text ''error'' [broken_text])]], None)"
  by (simp add: report_def job_response_def job_data_def broken_step_def Let_def)

text \<open>
  C9, amended: when the last poll answer has status code 200, the reporter
  reads the first element of \<open>stderr\<close> in every step.  When it then ends
  without a fault on a finished or failed job, every step of \<open>process_log\<close> has
  a \<open>stderr\<close> with a first element, so none has the empty list; and at the
  first step whose \<open>stderr\<close> is the empty list it raises IndexError, after the
  prints of the steps before and the \<open>stdout\<close> of that step, and prints neither
  the later steps nor \<open>urls\<close>.
\<close>

theorem report_needs_first_stderr:
  assumes "status_code r = 200" and "final_status \<noteq> PStr ''terminated''"
    and "getitem data (PStr ''process_log'') = Inr (PList entries)"
  shows "(report r data final_status tr = (tr', None) \<longrightarrow>
            (\<forall>e\<in>set entries. \<exists>err x. getitem e (PStr ''stderr'') = Inr err
                \<and> getitem err (PInt 0) = Inr x \<and> err \<noteq> PList []))
     \<and> (entries = pre @ e # post \<and> (\<forall>p\<in>set pre. step_log p)
          \<and> getitem e (PStr ''stdout'') = Inr out
          \<and> getitem e (PStr ''stderr'') = Inr (PList []) \<longrightarrow>
            report r data final_status tr
              = (tr @ [Print [PStr rule_line]] @ concat (map entry_prints pre)
                   @ (if truthy out then [Print [out]] else []),
                 Some IndexError))"
proof (intro conjI impI)
  assume ok: "report r data final_status tr = (tr', None)"
  obtain t1 res where w: "walk_log entries (tr @ [Print [PStr rule_line]]) = (t1, res)"
    by (cases "walk_log entries (tr @ [Print [PStr rule_line]])")
  have "res = None"
    using ok assms w by (auto simp: report_def Let_def split: option.splits sum.splits)
  with w have w': "walk_log entries (tr @ [Print [PStr rule_line]]) = (t1, None)" by simp
  show "\<forall>e\<in>set entries. \<exists>err x. getitem e (PStr ''stderr'') = Inr err
                \<and> getitem err (PInt 0) = Inr x \<and> err \<noteq> PList []"
  proof
    fix e assume "e \<in> set entries"
    from walk_log_ok_stderr [OF w' this] obtain err x
      where g: "getitem e (PStr ''stderr'') = Inr err" "getitem err (PInt 0) = Inr x" by blast
    have "err \<noteq> PList []" using g(2) by (auto simp: seq_index_first)
    with g show "\<exists>err x. getitem e (PStr ''stderr'') = Inr err
                \<and> getitem err (PInt 0) = Inr x \<and> err \<noteq> PList []" by blast
  qed
next
  assume a: "entries = pre @ e # post \<and> (\<forall>p\<in>set pre. step_log p)
          \<and> getitem e (PStr ''stdout'') = Inr out
          \<and> getitem e (PStr ''stderr'') = Inr (PList [])"
  let ?t0 = "tr @ [Print [PStr rule_line]]"
  have p: "walk_log pre ?t0 = (?t0 @ concat (map entry_prints pre), None)"
    using a walk_log_all by blast
  have "walk_log entries ?t0 = walk_log (e # post) (?t0 @ concat (map entry_prints pre))"
    using a walk_log_append [OF p] by simp
  also have "\<dots> = ((?t0 @ concat (map entry_prints pre)) @ (if truthy out then [Print [out]] else []),
                   Some IndexError)"
    using a walk_log_empty_stderr by blast
  finally show "report r data final_status tr
              = (tr @ [Print [PStr rule_line]] @ concat (map entry_prints pre)
                   @ (if truthy out then [Print [out]] else []),
                 Some IndexError)"
    using assms by (simp add: report_def Let_def)
qed

theorem report_needs_first_stderr_witness:
  "report (job_response 200 ''finished'' [loud_text, broken_text, quiet_text])
        (job_data ''finished'' [loud_step, broken_step, quiet_step]) (PStr ''finished'') []
     = ([Print [PStr rule_line], Print [PStr ''projection: 99''],
         PPrint (PList [PStr ''WARNING: no units'']), Print [PStr ''done'']], Some IndexError)
   \<and> (\<exists>err x. getitem quiet_step (PStr ''stderr'') = Inr err \<and> getitem err (PInt 0) = Inr x
         \<and> err \<noteq> PList [])"
proof -
  let ?r3 = "job_response 200 ''finished'' [loud_text, broken_text, quiet_text]"
  let ?r2 = "job_response 200 ''finished'' [loud_text, quiet_text]"
  let ?ok = "[Print [PStr rule_line], Print [PStr ''projection: 99''],
         PPrint (PList [PStr ''WARNING: no units'']), PPrint links]"
  have c: "status_code (job_response 200 st xs) = 200" for st xs
    by (simp add: job_response_def)
  have n: "PStr ''finished'' \<noteq> PStr ''terminated''" by simp
  have g3: "getitem (job_data ''finished'' [loud_step, broken_step, quiet_step]) (PStr ''process_log'')
      = Inr (PList [loud_step, broken_step, quiet_step])"
    by (simp add: job_data_def)
  have h: "[loud_step, broken_step, quiet_step] = [loud_step] @ broken_step # [quiet_step]
      \<and> (\<forall>p\<in>set [loud_step]. step_log p)
      \<and> getitem broken_step (PStr ''stdout'') = Inr (PStr ''done'')
      \<and> getitem broken_step (PStr ''stderr'') = Inr (PList [])"
    by (simp add: step_defs)
  have e: "concat (map entry_prints [loud_step])
      = [Print [PStr ''projection: 99''], PPrint (PList [PStr ''WARNING: no units''])]"
    by (simp add: step_defs)
  note second = report_needs_first_stderr [OF c [of "''finished''" "[loud_text, broken_text, quiet_text]"]
        n g3, where tr = "[]" and pre = "[loud_step]"
        and e = broken_step and post = "[quiet_step]" and out = "PStr ''done''",
        THEN conjunct2, rule_format, OF h]
  have a: "report ?r3 (job_data ''finished'' [loud_step, broken_step, quiet_step]) (PStr ''finished'') []
     = ([Print [PStr rule_line], Print [PStr ''projection: 99''],
         PPrint (PList [PStr ''WARNING: no units'']), Print [PStr ''done'']], Some IndexError)"
    using second e by simp
  have g2: "getitem (job_data ''finished'' [loud_step, quiet_step]) (PStr ''process_log'')
      = Inr (PList [loud_step, quiet_step])"
    by (simp add: job_data_def)
  have ok: "report ?r2 (job_data ''finished'' [loud_step, quiet_step]) (PStr ''finished'') []
      = (?ok, None)"
    by code_simp
  note first = report_needs_first_stderr [OF c [of "''finished''" "[loud_text, quiet_text]"] n g2,
        where tr = "[]" and tr' = ?ok,
        THEN conjunct1, rule_format, OF ok, of quiet_step]
  have b: "\<exists>err x. getitem quiet_step (PStr ''stderr'') = Inr err \<and> getitem err (PInt 0) = Inr x
         \<and> err \<noteq> PList []"
    by (rule first) simp
  show ?thesis using a b by (rule conjI)
qed

end
